theory Spec2Isabelle
  imports Main "HOL-Library.Word" "HOL-Library.AList" "HOL-Library.Sublist"
begin

section \<open>Strings and the JavaScript built-ins the library calls\<close>

text \<open>
  A JavaScript string is a sequence of UTF-16 code units; \<open>length\<close>, \<open>charAt\<close>,
  \<open>substring\<close> and \<open>String.fromCharCode\<close> all work on code units.
\<close>

type_synonym ustring = "16 word list"

text \<open>ASCII text as a JavaScript string (to write the literals of the source).\<close>

definition ustr :: "string \<Rightarrow> ustring" where
  "ustr s = map of_char s"

text \<open>
  A compiled \<open>RegExp\<close> without the \<open>g\<close> flag, seen through \<open>str.match(re)\<close>: \<open>None\<close> is
  \<open>null\<close>, \<open>Some (index, text)\<close> is a match with \<open>match.index = index\<close> and
  \<open>match[0] = text\<close>.
\<close>

type_synonym regexp = "ustring \<Rightarrow> (nat \<times> ustring) option"

text \<open>
  The built-ins of the JavaScript engine (Unicode normalisation, lower-casing and the
  regular-expression compiler) are not code of the library: every function below takes
  them as a parameter. \<open>new_RegExp source flags\<close> is \<open>None\<close> when the constructor throws
  a SyntaxError.
\<close>

record platform =
  normalize_NFKD :: "ustring \<Rightarrow> ustring"
  normalize_NFC :: "ustring \<Rightarrow> ustring"
  toLowerCase :: "ustring \<Rightarrow> ustring"
  new_RegExp :: "ustring \<Rightarrow> string \<Rightarrow> regexp option"

text \<open>
  The helpers imported from \<open>regex.mjs\<close> and \<open>strings.mjs\<close>. \<open>sequencePattern\<close> is also
  called on arrays that hold \<open>undefined\<close> (\<open>None\<close>), see \<open>sequencesToPattern\<close>.
\<close>

record helpers =
  setToPattern :: "ustring list \<Rightarrow> ustring"
  arrayToPattern :: "ustring list \<Rightarrow> ustring"
  escape_regex :: "ustring \<Rightarrow> ustring"
  sequencePattern :: "ustring option list \<Rightarrow> ustring"
  allSubstrings :: "ustring \<Rightarrow> ustring list list"

datatype error = SyntaxError | TypeError

section \<open>Folding\<close>

text \<open>\<open>accent_pat\<close>: the character class of U+0300..U+036F, U+00B7 and U+02BE.\<close>

definition accent_pat :: "16 word \<Rightarrow> bool" where
  "accent_pat c \<longleftrightarrow> (0x0300 \<le> c \<and> c \<le> 0x036F) \<or> c = 0x00B7 \<or> c = 0x02BE"

text \<open>\<open>latin_convert\<close>: the keys are U+00E6, U+2C65, U+00F8, U+2044 and U+2215.\<close>

definition latin_convert :: "(16 word \<times> ustring) list" where
  "latin_convert =
     [(0x00E6, ustr ''ae''), (0x2C65, ustr ''a''), (0x00F8, ustr ''o''),
      (0x2044, ustr ''/''), (0x2215, ustr ''/'')]"

text \<open>
  \<open>convert_pat\<close> is the alternation of the keys of \<open>latin_convert\<close> and of \<open>accent_pat\<close>,
  with the flags \<open>gu\<close>: it matches single code points of the Basic Multilingual Plane, so
  never a surrogate, and a match is one code unit.
\<close>

definition convert_pat :: "16 word \<Rightarrow> bool" where
  "convert_pat c \<longleftrightarrow> c \<in> set (map fst latin_convert) \<or> accent_pat c"

text \<open>The callback of \<open>replace\<close>: \<open>latin_convert[foreignletter] || ''\<close>.\<close>

definition convert_char :: "16 word \<Rightarrow> ustring" where
  "convert_char c = (case map_of latin_convert c of Some r \<Rightarrow> r | None \<Rightarrow> [])"

definition replace_convert :: "ustring \<Rightarrow> ustring" where
  "replace_convert s = concat (map (\<lambda>c. if convert_pat c then convert_char c else [c]) s)"

text \<open>
  \<open>decompose\<close>: when a code unit of U+0F71..U+0F81 occurs, every code unit is normalised
  on its own; otherwise the whole string is.
\<close>

definition decompose :: "platform \<Rightarrow> ustring \<Rightarrow> ustring" where
  "decompose P str =
     (if \<exists>c \<in> set str. 0x0F71 \<le> c \<and> c \<le> 0x0F81
      then concat (map (\<lambda>c. normalize_NFKD P [c]) str)
      else normalize_NFKD P str)"

definition asciifold :: "platform \<Rightarrow> ustring \<Rightarrow> ustring" where
  "asciifold P str = replace_convert (toLowerCase P (decompose P str))"

section \<open>The generator of variants\<close>

definition max_char_length :: nat where
  "max_char_length = 3"

record code_point_obj =
  folded :: ustring
  composed :: ustring
  code_point :: int

text \<open>
  \<open>String.fromCharCode(i)\<close> keeps the low 16 bits of \<open>i\<close>. Code points are integers (the
  numbers of a range are taken to be integral and of magnitude below \<open>2^53\<close>, where
  JavaScript's \<open>i++\<close> and \<open>i <= hi\<close> are exact).
\<close>

definition fromCharCode :: "int \<Rightarrow> ustring" where
  "fromCharCode i = [word_of_int i]"

text \<open>One turn of the inner loop of \<open>generator\<close>: \<open>None\<close> is \<open>continue\<close>, \<open>Some\<close> a \<open>yield\<close>.\<close>

definition generator_step :: "platform \<Rightarrow> int \<Rightarrow> code_point_obj option" where
  "generator_step P i =
     (let composed = fromCharCode i;
          folded = asciifold P composed
      in if folded = toLowerCase P composed then None
         else if length folded > max_char_length then None
         else if length folded = 0 then None
         else
           let decomposed = normalize_NFKD P composed;
               recomposed = normalize_NFC P decomposed
           in if recomposed = composed \<and> folded = decomposed then None
              else Some \<lparr>folded = folded, composed = composed, code_point = i\<rparr>)"

text \<open>The values the generator yields, in order.\<close>

definition generator :: "platform \<Rightarrow> (int \<times> int) list \<Rightarrow> code_point_obj list" where
  "generator P code_points =
     concat (map (\<lambda>code_range. List.map_filter (generator_step P) [fst code_range..snd code_range])
                 code_points)"

section \<open>Building the map\<close>

text \<open>
  \<open>unicode_sets\<close> is an object whose values are \<open>Set\<close>s of strings: an association list
  in insertion order, each set a list without duplicates in insertion order.
\<close>

type_synonym unicode_sets = "(ustring \<times> ustring list) list"

definition set_add :: "'a \<Rightarrow> 'a list \<Rightarrow> 'a list" where
  "set_add x xs = (if x \<in> set xs then xs else xs @ [x])"

text \<open>
  \<open>addMatching\<close>, the closure of \<open>generateSets\<close>; the object it updates is passed and
  returned.
\<close>

definition addMatching ::
  "platform \<Rightarrow> helpers \<Rightarrow> unicode_sets \<Rightarrow> ustring \<Rightarrow> ustring \<Rightarrow> error + unicode_sets" where
  "addMatching P H unicode_sets fld to_add =
     (let folded_set = (case map_of unicode_sets fld of Some s \<Rightarrow> s | None \<Rightarrow> [])
      in case new_RegExp P (ustr ''^'' @ setToPattern H folded_set @ ustr ''$'') ''iu'' of
           None \<Rightarrow> Inl SyntaxError
         | Some patt \<Rightarrow>
             if patt to_add \<noteq> None then Inr unicode_sets
             else Inr (AList.update fld (set_add (escape_regex H to_add) folded_set) unicode_sets))"

fun generateSets_loop ::
  "platform \<Rightarrow> helpers \<Rightarrow> code_point_obj list \<Rightarrow> unicode_sets \<Rightarrow> error + unicode_sets" where
  "generateSets_loop P H [] unicode_sets = Inr unicode_sets"
| "generateSets_loop P H (v # vs) unicode_sets =
     (case addMatching P H unicode_sets (folded v) (folded v) of
        Inl e \<Rightarrow> Inl e
      | Inr s1 \<Rightarrow>
          (case addMatching P H s1 (folded v) (composed v) of
             Inl e \<Rightarrow> Inl e
           | Inr s2 \<Rightarrow> generateSets_loop P H vs s2))"

definition generateSets ::
  "platform \<Rightarrow> helpers \<Rightarrow> (int \<times> int) list \<Rightarrow> error + unicode_sets" where
  "generateSets P H code_points = generateSets_loop P H (generator P code_points) []"

text \<open>
  \<open>for (let folded in unicode_sets)\<close> enumerates the keys that are array indices first,
  in ascending numeric order, then the other keys in insertion order.
\<close>

definition is_digit :: "16 word \<Rightarrow> bool" where
  "is_digit c \<longleftrightarrow> 0x30 \<le> c \<and> c \<le> 0x39"

definition index_value :: "ustring \<Rightarrow> nat" where
  "index_value k = foldl (\<lambda>a d. 10 * a + (unat d - 48)) 0 k"

definition is_array_index :: "ustring \<Rightarrow> bool" where
  "is_array_index k \<longleftrightarrow>
     k \<noteq> [] \<and> list_all is_digit k \<and> (k = [0x30] \<or> hd k \<noteq> 0x30) \<and> index_value k < 2 ^ 32 - 1"

definition for_in_keys :: "(ustring \<times> 'a) list \<Rightarrow> ustring list" where
  "for_in_keys obj =
     sort_key index_value (filter is_array_index (map fst obj))
     @ filter (\<lambda>k. \<not> is_array_index k) (map fst obj)"

text \<open>
  The module's state once initialised: \<open>unicode_map\<close> (an object from folded strings to
  pattern strings, read with \<open>hasOwnProperty\<close> and by key) and \<open>multi_char_reg\<close>.
\<close>

record state =
  unicode_map :: "ustring \<Rightarrow> ustring option"
  multi_char_reg :: regexp

text \<open>
  \<open>generateMap\<close> returns the map and assigns \<open>multi_char_reg\<close>: both are returned here.
  \<open>multi_char.sort((a, b) => b.length - a.length)\<close> is a stable sort by descending
  length.
\<close>

definition generateMap ::
  "platform \<Rightarrow> helpers \<Rightarrow> (int \<times> int) list \<Rightarrow> error + state" where
  "generateMap P H code_points =
     (case generateSets P H code_points of
        Inl e \<Rightarrow> Inl e
      | Inr unicode_sets \<Rightarrow>
          let keys = for_in_keys unicode_sets;
              umap = map_of (map (\<lambda>(fld, s). (fld, setToPattern H s)) unicode_sets);
              multi_char = map (escape_regex H) (filter (\<lambda>fld. length fld > 1) keys);
              multi_char_sorted = sort_key (\<lambda>a. - int (length a)) multi_char;
              multi_char_patt = arrayToPattern H multi_char_sorted
          in (case new_RegExp P multi_char_patt ''u'' of
                None \<Rightarrow> Inl SyntaxError
              | Some re \<Rightarrow> Inr \<lparr>unicode_map = umap, multi_char_reg = re\<rparr>))"

text \<open>
  \<open>initialize\<close>: the module's state is \<open>None\<close> while \<open>unicode_map\<close> is \<open>undefined\<close>;
  \<open>dflt\<close> is the table of \<open>code_points.mjs\<close>.
\<close>

definition initialize ::
  "platform \<Rightarrow> helpers \<Rightarrow> (int \<times> int) list \<Rightarrow> (int \<times> int) list option \<Rightarrow> state option
     \<Rightarrow> error + state" where
  "initialize P H dflt code_points_arg g =
     (case g of
        Some st \<Rightarrow> Inr st
      | None \<Rightarrow> generateMap P H (case code_points_arg of Some cps \<Rightarrow> cps | None \<Rightarrow> dflt))"

section \<open>From runs to patterns\<close>

text \<open>
  The callback of \<open>strings.map\<close> in \<open>mapSequence\<close>: the string it returns and what it adds to
  \<open>chars_replaced\<close>. \<open>unicode_map[str] || str\<close> keeps \<open>str\<close> when the stored pattern is the
  empty string.
\<close>

definition mapSequence_callback :: "(ustring \<Rightarrow> ustring option) \<Rightarrow> ustring \<Rightarrow> ustring \<times> nat" where
  "mapSequence_callback m str =
     (case m str of
        None \<Rightarrow> (str, 0)
      | Some v \<Rightarrow> (if v = [] then str else v, length str))"

text \<open>The count \<open>chars_replaced\<close> and the mapped array.\<close>

fun mapSequence_loop ::
  "(ustring \<Rightarrow> ustring option) \<Rightarrow> ustring list \<Rightarrow> nat \<times> ustring list" where
  "mapSequence_loop m [] = (0, [])"
| "mapSequence_loop m (str # strs) =
     (let (out, k) = mapSequence_callback m str;
          (n, outs) = mapSequence_loop m strs
      in (k + n, out # outs))"

definition mapSequence ::
  "helpers \<Rightarrow> (ustring \<Rightarrow> ustring option) \<Rightarrow> ustring list \<Rightarrow> int \<Rightarrow> ustring option" where
  "mapSequence H m strings min_replacement =
     (let (chars_replaced, strings') = mapSequence_loop m strings
      in if int chars_replaced \<ge> min_replacement
         then Some (sequencePattern H (map Some strings'))
         else None)"

text \<open>\<open>if (pattern)\<close>: neither \<open>undefined\<close> nor the empty string.\<close>

fun substringsToPattern_loop ::
  "helpers \<Rightarrow> (ustring \<Rightarrow> ustring option) \<Rightarrow> int \<Rightarrow> ustring list list \<Rightarrow> ustring list" where
  "substringsToPattern_loop H m min_replacement [] = []"
| "substringsToPattern_loop H m min_replacement (sub_pat # rest) =
     (case mapSequence H m sub_pat min_replacement of
        None \<Rightarrow> substringsToPattern_loop H m min_replacement rest
      | Some pattern \<Rightarrow>
          if pattern = [] then substringsToPattern_loop H m min_replacement rest
          else pattern # substringsToPattern_loop H m min_replacement rest)"

definition substringsToPattern ::
  "helpers \<Rightarrow> (ustring \<Rightarrow> ustring option) \<Rightarrow> ustring \<Rightarrow> int \<Rightarrow> ustring option" where
  "substringsToPattern H m str min_replacement =
     (let substrings = allSubstrings H str;
          min_replacement' = max min_replacement (int (length str) - 1);
          patterns = substringsToPattern_loop H m min_replacement' substrings
      in if length patterns > 0 then Some (arrayToPattern H patterns) else None)"

section \<open>Parts and sequences\<close>

text \<open>A Part is the object \<open>{start, end, length, substr}\<close>.\<close>

record part =
  start_p :: nat
  end_p :: nat
  length_p :: nat
  substr :: ustring

text \<open>The class \<open>Sequence\<close>; its methods return the updated object.\<close>

record sequence =
  parts :: "part list"
  substrs :: "ustring list"
  start_s :: nat
  end_s :: nat

definition new_Sequence :: sequence where
  "new_Sequence = \<lparr>parts = [], substrs = [], start_s = 0, end_s = 0\<rparr>"

definition Sequence_add :: "sequence \<Rightarrow> part \<Rightarrow> sequence" where
  "Sequence_add this p =
     \<lparr>parts = parts this @ [p],
      substrs = substrs this @ [substr p],
      start_s = min (start_p p) (start_s this),
      end_s = max (end_p p) (end_s this)\<rparr>"

text \<open>\<open>last()\<close> is \<open>undefined\<close> (\<open>None\<close>) on a sequence without parts.\<close>

definition Sequence_last :: "sequence \<Rightarrow> part option" where
  "Sequence_last this = (if parts this = [] then None else Some (last (parts this)))"

definition Sequence_length :: "sequence \<Rightarrow> nat" where
  "Sequence_length this = length (parts this)"

text \<open>
  \<open>clone(position, last_piece)\<close>: the parts are copied (through JSON), all but the last
  are added to a new sequence, and the last is cut at \<open>position\<close>. On a sequence without
  parts \<open>parts.pop()\<close> is \<open>undefined\<close> and reading its \<open>start\<close> throws.
\<close>

definition Sequence_clone :: "sequence \<Rightarrow> nat \<Rightarrow> part \<Rightarrow> error + sequence" where
  "Sequence_clone this position last_piece =
     (let clone = fold (\<lambda>p c. Sequence_add c p) (take (Sequence_length this - 1) (parts this))
                    new_Sequence
      in case rev (parts this) of
           [] \<Rightarrow> Inl TypeError
         | clone_last # _ \<Rightarrow>
             let last_substr = take (position - start_p clone_last) (substr last_piece);
                 clone_last_len = length last_substr
             in Inr (Sequence_add clone
                       \<lparr>start_p = start_p clone_last,
                        end_p = start_p clone_last + clone_last_len,
                        length_p = clone_last_len,
                        substr = last_substr\<rparr>))"

text \<open>The callback of \<open>seq.parts.filter\<close> in \<open>inSequences\<close>, on the parts of the needle.\<close>

fun part_conflict :: "part \<Rightarrow> part list \<Rightarrow> bool" where
  "part_conflict p [] = False"
| "part_conflict p (needle_part # needle_parts) =
     (if start_p needle_part = start_p p \<and> substr needle_part = substr p then False
      else if length_p p = 1 \<or> length_p needle_part = 1 then part_conflict p needle_parts
      else if start_p p < start_p needle_part \<and> end_p p > start_p needle_part then True
      else if start_p needle_part < start_p p \<and> end_p needle_part > start_p p then True
      else part_conflict p needle_parts)"

fun inSequences :: "sequence \<Rightarrow> sequence list \<Rightarrow> bool" where
  "inSequences needle_seq [] = False"
| "inSequences needle_seq (seq # sequences) =
     (if start_s seq \<noteq> start_s needle_seq \<or> end_s seq \<noteq> end_s needle_seq
      then inSequences needle_seq sequences
      else if concat (substrs seq) \<noteq> concat (substrs needle_seq)
      then inSequences needle_seq sequences
      else if length (filter (\<lambda>p. part_conflict p (parts needle_seq)) (parts seq)) > 0
      then inSequences needle_seq sequences
      else True)"

text \<open>
  \<open>sequencesToPattern\<close>: \<open>sequence.substrs[j]\<close> for \<open>j < len\<close>; \<open>parts\<close> and \<open>substrs\<close> of a
  sequence always have the same length, since only \<open>add\<close> extends them.
\<close>

definition sequencesToPattern ::
  "helpers \<Rightarrow> (ustring \<Rightarrow> ustring option) \<Rightarrow> sequence list \<Rightarrow> bool \<Rightarrow> ustring" where
  "sequencesToPattern H m sequences all =
     arrayToPattern H
       (map (\<lambda>sequence.
               let len = (if all then Sequence_length sequence else Sequence_length sequence - 1)
               in sequencePattern H
                    (map (\<lambda>s. substringsToPattern H m s 1) (take len (substrs sequence))))
            sequences)"

section \<open>getPattern\<close>

text \<open>\<open>Array.from(str)\<close> splits a string into code points: a surrogate pair stays whole.\<close>

fun Array_from :: "ustring \<Rightarrow> ustring list" where
  "Array_from [] = []"
| "Array_from [c] = [[c]]"
| "Array_from (c # d # rest) =
     (if 0xD800 \<le> c \<and> c \<le> 0xDBFF \<and> 0xDC00 \<le> d \<and> d \<le> 0xDFFF
      then [c, d] # Array_from rest
      else [c] # Array_from (d # rest))"

text \<open>The members of the set \<open>added_types\<close>: \<open>'match:'+m\<close>, \<open>'char:'+c\<close> and \<open>'not-adding'\<close>.\<close>

datatype added_type = Added_match ustring | Added_char ustring | Not_adding

text \<open>
  The Parts that the loop adds at position \<open>i\<close>:
  \<open>{start:i, end:i+len, length:len, substr:match[0]}\<close> with \<open>len = match[0].length\<close>, and
  \<open>{start:i, end:i+1, length:1, substr:char}\<close>.
\<close>

definition match_part :: "nat \<Rightarrow> ustring \<Rightarrow> part" where
  "match_part i m0 = \<lparr>start_p = i, end_p = i + length m0, length_p = length m0, substr = m0\<rparr>"

definition char_part :: "nat \<Rightarrow> ustring \<Rightarrow> part" where
  "char_part i char = \<lparr>start_p = i, end_p = i + 1, length_p = 1, substr = char\<rparr>"

text \<open>
  The loop over the live sequences at position \<open>i\<close>. \<open>match\<close> is \<open>match[0]\<close> when there is
  a match at index 0. The sequences are updated in place (\<open>seqs_done\<close> collects them in
  order); clones go to \<open>overlapping\<close>.
\<close>

fun for_sequences ::
  "nat \<Rightarrow> ustring option \<Rightarrow> ustring \<Rightarrow> sequence list \<Rightarrow> sequence list \<Rightarrow> sequence list
     \<Rightarrow> added_type list \<Rightarrow> error + (sequence list \<times> sequence list \<times> added_type list)" where
  "for_sequences i match char [] seqs_done overlapping added_types =
     Inr (seqs_done, overlapping, added_types)"
| "for_sequences i match char (sequence # rest) seqs_done overlapping added_types =
     (let last_piece = Sequence_last sequence
      in if (case last_piece of None \<Rightarrow> True | Some lp \<Rightarrow> length_p lp = 1 \<or> end_p lp \<le> i)
         then (case match of
                 Some m0 \<Rightarrow>
                   for_sequences i match char rest
                     (seqs_done @ [Sequence_add sequence (match_part i m0)])
                     overlapping (set_add (Added_match m0) added_types)
               | None \<Rightarrow>
                   for_sequences i match char rest
                     (seqs_done @ [Sequence_add sequence (char_part i char)])
                     overlapping (set_add (Added_char char) added_types))
         else (case match of
                 Some m0 \<Rightarrow>
                   (case Sequence_clone sequence i (the last_piece) of
                      Inl e \<Rightarrow> Inl e
                    | Inr clone \<Rightarrow>
                        for_sequences i match char rest (seqs_done @ [sequence])
                          (overlapping @ [Sequence_add clone (match_part i m0)])
                          added_types)
               | None \<Rightarrow>
                   for_sequences i match char rest (seqs_done @ [sequence]) overlapping
                     (set_add Not_adding added_types)))"

text \<open>
  The clones, sorted by their number of parts (a stable sort), are pushed onto
  \<open>sequences\<close> unless an equivalent sequence is there already.
\<close>

fun push_clones :: "sequence list \<Rightarrow> sequence list \<Rightarrow> sequence list" where
  "push_clones [] sequences = sequences"
| "push_clones (clone # rest) sequences =
     (if inSequences clone sequences then push_clones rest sequences
      else push_clones rest (sequences @ [clone]))"

text \<open>
  \<open>str.substring(i).match(multi_char_reg)\<close>, dropped unless its index is 0: \<open>match[0]\<close> of a
  multi-character key that begins at position \<open>i\<close>.
\<close>

definition match_at :: "state \<Rightarrow> ustring \<Rightarrow> nat \<Rightarrow> ustring option" where
  "match_at st str i =
     (case multi_char_reg st (drop i str) of
        None \<Rightarrow> None
      | Some (index, m0) \<Rightarrow> if index \<noteq> 0 then None else Some m0)"

text \<open>One turn of the loop over the positions \<open>i\<close> of the folded string.\<close>

definition getPattern_step ::
  "helpers \<Rightarrow> state \<Rightarrow> ustring \<Rightarrow> nat \<Rightarrow> ustring \<times> sequence list
     \<Rightarrow> error + (ustring \<times> sequence list)" where
  "getPattern_step H st str i acc =
     (let pattern = fst acc;
          sequences = snd acc;
          match = match_at st str i;
          char = take 1 (drop i str)
      in case for_sequences i match char sequences [] [] [] of
           Inl e \<Rightarrow> Inl e
         | Inr (sequences', overlapping, added_types) \<Rightarrow>
             if length overlapping > 0
             then Inr (pattern, push_clones (sort_key Sequence_length overlapping) sequences')
             else if i > 0 \<and> length added_types = 1 \<and> Not_adding \<notin> set added_types
             then (case sequences' of
                     [] \<Rightarrow> Inl TypeError
                   | s0 # _ \<Rightarrow>
                       (case Sequence_last s0 of
                          None \<Rightarrow> Inl TypeError
                        | Some lp \<Rightarrow>
                            Inr (pattern @ sequencesToPattern H (unicode_map st) sequences' False,
                                 [Sequence_add new_Sequence lp])))
             else Inr (pattern, sequences'))"

fun getPattern_loop ::
  "helpers \<Rightarrow> state \<Rightarrow> ustring \<Rightarrow> nat list \<Rightarrow> ustring \<times> sequence list
     \<Rightarrow> error + (ustring \<times> sequence list)" where
  "getPattern_loop H st str [] acc = Inr acc"
| "getPattern_loop H st str (i # is) acc =
     (case getPattern_step H st str i acc of
        Inl e \<Rightarrow> Inl e
      | Inr acc' \<Rightarrow> getPattern_loop H st str is acc')"

text \<open>\<open>getPattern\<close> after \<open>initialize()\<close>, on the module's state \<open>st\<close>.\<close>

definition getPattern_body ::
  "platform \<Rightarrow> helpers \<Rightarrow> state \<Rightarrow> ustring \<Rightarrow> error + ustring option" where
  "getPattern_body P H st input =
     (let str = asciifold P input
      in if multi_char_reg st str = None
         then Inr (mapSequence H (unicode_map st) (Array_from str) 0)
         else (case getPattern_loop H st str [0..<length str] ([], [new_Sequence]) of
                 Inl e \<Rightarrow> Inl e
               | Inr (pattern, sequences) \<Rightarrow>
                   Inr (Some (pattern @ sequencesToPattern H (unicode_map st) sequences True))))"

text \<open>
  \<open>getPattern\<close>: \<open>g\<close> is the module's state before the call (\<open>None\<close> before any
  initialisation); the state after the call is returned with the result.
\<close>

definition getPattern ::
  "platform \<Rightarrow> helpers \<Rightarrow> (int \<times> int) list \<Rightarrow> state option \<Rightarrow> ustring
     \<Rightarrow> error + (ustring option \<times> state)" where
  "getPattern P H dflt g input =
     (case initialize P H dflt None g of
        Inl e \<Rightarrow> Inl e
      | Inr st \<Rightarrow>
          (case getPattern_body P H st input of
             Inl e \<Rightarrow> Inl e
           | Inr r \<Rightarrow> Inr (r, st)))"

section \<open>A concrete instance of the parameters\<close>

subsection \<open>The helpers of regex.mjs and strings.mjs\<close>

text \<open>The characters that \<open>escape_regex\<close> escapes: \<open>$()*+.?[]^{|}\<close> and the backslash.\<close>

definition syntax_chars :: ustring where
  "syntax_chars = ustr ''$()*+.?[]^{|}'' @ [0x5C]"

text \<open>
  Modelled from the spec: \<open>escape_regex\<close> of regex.mjs, which is not under src/
  ("escaping a literal"): a backslash goes before every syntax character.
\<close>

definition spec_escape_regex :: "ustring \<Rightarrow> ustring" where
  "spec_escape_regex s = concat (map (\<lambda>c. if c \<in> set syntax_chars then [0x5C, c] else [c]) s)"

fun join_bar :: "ustring list \<Rightarrow> ustring" where
  "join_bar [] = []"
| "join_bar [x] = x"
| "join_bar (x # y # xs) = x @ [0x7C] @ join_bar (y # xs)"

text \<open>
  Modelled from the spec: \<open>arrayToPattern\<close> and \<open>setToPattern\<close> of regex.mjs, which is not
  under src/ ("turning a set of alternatives into an alternation", with the spec's
  example \<open>(?:ii|...)\<close>): empty alternatives are dropped, a single alternative stands alone,
  several are joined in a non-capturing group.
\<close>

definition spec_arrayToPattern :: "ustring list \<Rightarrow> ustring" where
  "spec_arrayToPattern chars =
     (case filter (\<lambda>c. c \<noteq> []) chars of
        [] \<Rightarrow> []
      | [c] \<Rightarrow> c
      | cs \<Rightarrow> ustr ''(?:'' @ join_bar cs @ ustr '')'')"

text \<open>
  Modelled from the spec: \<open>sequencePattern\<close> of regex.mjs, which is not under src/
  ("turning an ordered list of fragments into a concatenation"); \<open>undefined\<close> joins as
  the empty string.
\<close>

definition spec_sequencePattern :: "ustring option list \<Rightarrow> ustring" where
  "spec_sequencePattern array = concat (map (\<lambda>x. case x of None \<Rightarrow> [] | Some s \<Rightarrow> s) array)"

text \<open>
  Modelled from the spec: \<open>allSubstrings\<close> of strings.mjs, which is not under src/
  ("every ordered partition of a string into contiguous non-empty pieces, as a finite
  list").
\<close>

fun spec_allSubstrings :: "ustring \<Rightarrow> ustring list list" where
  "spec_allSubstrings [] = [[]]"
| "spec_allSubstrings [c] = [[[c]]]"
| "spec_allSubstrings (c # d # cs) =
     concat (map (\<lambda>sub. case sub of [] \<Rightarrow> [[[c]]] | p # ps \<Rightarrow> [(c # p) # ps, [c] # p # ps])
                 (spec_allSubstrings (d # cs)))"

definition spec_helpers :: helpers where
  "spec_helpers =
     \<lparr>setToPattern = spec_arrayToPattern, arrayToPattern = spec_arrayToPattern,
      escape_regex = spec_escape_regex, sequencePattern = spec_sequencePattern,
      allSubstrings = spec_allSubstrings\<rparr>"

subsection \<open>A fragment of the JavaScript engine\<close>

text \<open>
  The examples below run the library on a few characters. For them the built-ins are
  instantiated by their behaviour on those characters, with the data of the Unicode
  Character Database: compatibility decompositions of U+00C9, U+00E9, U+2167, U+2171,
  U+2172 and U+FB00,
  the canonical combining classes of U+0301, U+0594, U+0595, U+0596, U+05B0, U+05B1 and
  U+0F71 (every other code unit is a starter without decomposition here), the canonical
  composition of U+0065 U+0301, and the lower case of ASCII, Latin-1 and Roman-numeral
  capitals.
\<close>

definition frag_decomposition :: "(16 word \<times> ustring) list" where
  "frag_decomposition =
     [(0x00C9, [0x0045, 0x0301]), (0x00E9, [0x0065, 0x0301]),
      (0x2167, ustr ''VIII''), (0x2171, ustr ''ii''), (0x2172, ustr ''iii''),
      (0xFB00, ustr ''ff'')]"

definition frag_ccc :: "16 word \<Rightarrow> nat" where
  "frag_ccc c =
     (if c = 0x0301 \<or> c = 0x0594 \<or> c = 0x0595 then 230
      else if c = 0x0596 then 220
      else if c = 0x05B0 then 10
      else if c = 0x05B1 then 11
      else if c = 0x0F71 then 129
      else 0)"

text \<open>
  Canonical ordering: a combining mark moves left past the marks of a higher combining
  class that stand directly before it (\<open>racc\<close> is the text so far, reversed).
\<close>

fun insert_mark :: "16 word \<Rightarrow> ustring \<Rightarrow> ustring" where
  "insert_mark c [] = [c]"
| "insert_mark c (d # racc) =
     (if frag_ccc c \<noteq> 0 \<and> frag_ccc d > frag_ccc c then d # insert_mark c racc
      else c # d # racc)"

definition canonical_order :: "ustring \<Rightarrow> ustring" where
  "canonical_order s = rev (foldl (\<lambda>racc c. insert_mark c racc) [] s)"

definition frag_NFKD :: "ustring \<Rightarrow> ustring" where
  "frag_NFKD s =
     canonical_order
       (concat (map (\<lambda>c. case map_of frag_decomposition c of Some d \<Rightarrow> d | None \<Rightarrow> [c]) s))"

fun frag_NFC :: "ustring \<Rightarrow> ustring" where
  "frag_NFC [] = []"
| "frag_NFC [c] = [c]"
| "frag_NFC (c # d # s) =
     (if c = 0x0065 \<and> d = 0x0301 then 0x00E9 # frag_NFC s
      else if c = 0x0045 \<and> d = 0x0301 then 0x00C9 # frag_NFC s
      else c # frag_NFC (d # s))"

definition frag_lower :: "16 word \<Rightarrow> 16 word" where
  "frag_lower c =
     (if 0x41 \<le> c \<and> c \<le> 0x5A then c + 0x20
      else if 0xC0 \<le> c \<and> c \<le> 0xDE \<and> c \<noteq> 0xD7 then c + 0x20
      else if 0x2160 \<le> c \<and> c \<le> 0x216F then c + 0x10
      else c)"

text \<open>
  Regular expressions: the fragment with literals, identity escapes, \<open>^\<close>, \<open>$\<close>, groups
  and alternation. A pattern with any other syntax character is outside the fragment and
  is rejected, as is a pattern that the engine rejects with a SyntaxError (an unclosed
  group, a lone backslash).
\<close>

datatype rx = Chr "16 word" | Bol | Eol | Eps | Seq rx rx | Alt rx rx

text \<open>
  A backtracking matcher: \<open>at\<close> tells whether the position is the start of the input,
  \<open>k\<close> is the continuation; alternatives are tried in order.
\<close>

fun rx_match ::
  "(16 word \<Rightarrow> 16 word) \<Rightarrow> rx \<Rightarrow> bool \<Rightarrow> ustring \<Rightarrow> (bool \<Rightarrow> ustring \<Rightarrow> ustring option)
     \<Rightarrow> ustring option" where
  "rx_match canon (Chr c) at s k =
     (case s of [] \<Rightarrow> None | d # rest \<Rightarrow> if canon c = canon d then k False rest else None)"
| "rx_match canon Bol at s k = (if at then k at s else None)"
| "rx_match canon Eol at s k = (if s = [] then k at s else None)"
| "rx_match canon Eps at s k = k at s"
| "rx_match canon (Seq a b) at s k = rx_match canon a at s (\<lambda>at' s'. rx_match canon b at' s' k)"
| "rx_match canon (Alt a b) at s k =
     (case rx_match canon a at s k of Some x \<Rightarrow> Some x | None \<Rightarrow> rx_match canon b at s k)"

text \<open>
  The parser keeps the open groups on a stack; a frame holds the alternatives closed so
  far and the current concatenation.
\<close>

definition close_frame :: "rx option \<times> rx \<Rightarrow> rx" where
  "close_frame f = (case fst f of None \<Rightarrow> snd f | Some a \<Rightarrow> Alt a (snd f))"

fun rx_parse :: "ustring \<Rightarrow> rx option \<times> rx \<Rightarrow> (rx option \<times> rx) list \<Rightarrow> rx option" where
  "rx_parse [] f stack = (if stack = [] then Some (close_frame f) else None)"
| "rx_parse (c # cs) f stack =
     (if c = 0x28 then
        (case cs of
           q # col # cs' \<Rightarrow>
             if q = 0x3F \<and> col = 0x3A then rx_parse cs' (None, Eps) (f # stack) else None
         | _ \<Rightarrow> None)
      else if c = 0x29 then
        (case stack of
           [] \<Rightarrow> None
         | g # stack' \<Rightarrow> rx_parse cs (fst g, Seq (snd g) (close_frame f)) stack')
      else if c = 0x7C then rx_parse cs (Some (close_frame f), Eps) stack
      else if c = 0x5C then
        (case cs of
           [] \<Rightarrow> None
         | e # cs' \<Rightarrow>
             if e \<in> set syntax_chars then rx_parse cs' (fst f, Seq (snd f) (Chr e)) stack
             else None)
      else if c = 0x5E then rx_parse cs (fst f, Seq (snd f) Bol) stack
      else if c = 0x24 then rx_parse cs (fst f, Seq (snd f) Eol) stack
      else if c \<in> set syntax_chars then None
      else rx_parse cs (fst f, Seq (snd f) (Chr c)) stack)"

text \<open>The leftmost match: \<open>i\<close> is the index of \<open>s\<close> in the subject.\<close>

fun rx_search :: "(16 word \<Rightarrow> 16 word) \<Rightarrow> rx \<Rightarrow> nat \<Rightarrow> ustring \<Rightarrow> (nat \<times> ustring) option" where
  "rx_search canon r i [] =
     (case rx_match canon r (i = 0) [] (\<lambda>_ rest. Some rest) of
        Some rest \<Rightarrow> Some (i, [])
      | None \<Rightarrow> None)"
| "rx_search canon r i (c # s) =
     (case rx_match canon r (i = 0) (c # s) (\<lambda>_ rest. Some rest) of
        Some rest \<Rightarrow> Some (i, take (length (c # s) - length rest) (c # s))
      | None \<Rightarrow> rx_search canon r (Suc i) s)"

text \<open>
  The flags \<open>u\<close> and \<open>iu\<close>; with \<open>i\<close>, characters are compared after case folding (of the
  ASCII letters, in this fragment).
\<close>

definition ascii_fold :: "16 word \<Rightarrow> 16 word" where
  "ascii_fold c = (if 0x41 \<le> c \<and> c \<le> 0x5A then c + 0x20 else c)"

definition frag_RegExp :: "ustring \<Rightarrow> string \<Rightarrow> regexp option" where
  "frag_RegExp src flags =
     (if flags = ''iu'' \<or> flags = ''u'' then
        (case rx_parse src (None, Eps) [] of
           None \<Rightarrow> None
         | Some r \<Rightarrow> Some (rx_search (if flags = ''iu'' then ascii_fold else (\<lambda>c. c)) r 0))
      else None)"

definition frag_platform :: platform where
  "frag_platform =
     \<lparr>normalize_NFKD = frag_NFKD, normalize_NFC = frag_NFC,
      toLowerCase = map frag_lower, new_RegExp = frag_RegExp\<rparr>"

text \<open>
  A table of code-point ranges for the examples: U+2167 (ROMAN NUMERAL EIGHT, folded to
  the four characters \<open>viii\<close>) and U+FB00 (LATIN SMALL LIGATURE FF, folded to \<open>ff\<close>).
\<close>

definition example_code_points :: "(int \<times> int) list" where
  "example_code_points = [(0x2167, 0x2167), (0xFB00, 0xFB00)]"

text \<open>The module's state after \<open>initialize()\<close> with that table.\<close>

definition example_state :: state where
  "example_state =
     (case generateMap frag_platform spec_helpers example_code_points of
        Inr st \<Rightarrow> st
      | Inl e \<Rightarrow> \<lparr>unicode_map = Map.empty, multi_char_reg = (\<lambda>_. None)\<rparr>)"

lemma example_generateMap:
  "generateMap frag_platform spec_helpers example_code_points = Inr example_state"
proof -
  have "\<not> isl (generateMap frag_platform spec_helpers example_code_points)"
    by code_simp
  then show ?thesis
    by (cases "generateMap frag_platform spec_helpers example_code_points")
       (simp_all add: example_state_def)
qed

text \<open>
  A second table: U+2171 and U+2172 (SMALL ROMAN NUMERAL TWO and THREE, folded to \<open>ii\<close>
  and \<open>iii\<close>), and the module's state after \<open>initialize()\<close> with it.
\<close>

definition roman_code_points :: "(int \<times> int) list" where
  "roman_code_points = [(0x2171, 0x2172)]"

definition roman_state :: state where
  "roman_state =
     (case generateMap frag_platform spec_helpers roman_code_points of
        Inr st \<Rightarrow> st
      | Inl e \<Rightarrow> \<lparr>unicode_map = Map.empty, multi_char_reg = (\<lambda>_. None)\<rparr>)"

lemma roman_generateMap:
  "generateMap frag_platform spec_helpers roman_code_points = Inr roman_state"
proof -
  have "\<not> isl (generateMap frag_platform spec_helpers roman_code_points)"
    by code_simp
  then show ?thesis
    by (cases "generateMap frag_platform spec_helpers roman_code_points")
       (simp_all add: roman_state_def)
qed

text \<open>
  A third table: U+00E9 (LATIN SMALL LETTER E WITH ACUTE, folded to \<open>e\<close>) and U+FB00,
  and the module's state after \<open>initialize()\<close> with it.
\<close>

definition latin_code_points :: "(int \<times> int) list" where
  "latin_code_points = [(0x00E9, 0x00E9), (0xFB00, 0xFB00)]"

definition latin_state :: state where
  "latin_state =
     (case generateMap frag_platform spec_helpers latin_code_points of
        Inr st \<Rightarrow> st
      | Inl e \<Rightarrow> \<lparr>unicode_map = Map.empty, multi_char_reg = (\<lambda>_. None)\<rparr>)"

subsection \<open>Matching a compiled pattern\<close>

text \<open>
  \<open>x.match(new RegExp('^' + frag + '$', 'iu'))\<close> is a match: the test that \<open>addMatching\<close>
  makes, and what it means for a fragment to match a string as a whole.
\<close>

definition fragment_matches :: "platform \<Rightarrow> ustring \<Rightarrow> ustring \<Rightarrow> bool" where
  "fragment_matches P frag x \<longleftrightarrow>
     (case new_RegExp P (ustr ''^'' @ frag @ ustr ''$'') ''iu'' of
        None \<Rightarrow> False
      | Some patt \<Rightarrow> patt x \<noteq> None)"

text \<open>A pattern, compiled with the flags \<open>iu\<close>, matches somewhere in \<open>s\<close>.\<close>

definition pattern_matches :: "platform \<Rightarrow> ustring \<Rightarrow> ustring \<Rightarrow> bool" where
  "pattern_matches P pattern s \<longleftrightarrow>
     (case new_RegExp P pattern ''iu'' of None \<Rightarrow> False | Some re \<Rightarrow> re s \<noteq> None)"

subsection \<open>Notions for the analysis of the map builder\<close>

text \<open>\<open>unicode_sets[folded] || new Set()\<close>: the variants registered for a key so far.\<close>

definition variants :: "unicode_sets \<Rightarrow> ustring \<Rightarrow> ustring list" where
  "variants sets k = (case map_of sets k of Some S \<Rightarrow> S | None \<Rightarrow> [])"

text \<open>A set as \<open>addMatching\<close> builds it: every member is a non-empty string, escaped.\<close>

definition escaped_variants :: "helpers \<Rightarrow> ustring list \<Rightarrow> bool" where
  "escaped_variants H S \<longleftrightarrow> set S \<subseteq> escape_regex H ` {y. y \<noteq> []}"

text \<open>
  What the map builder needs of \<open>setToPattern\<close>, \<open>escape_regex\<close> and the engine together:
  the alternation of a set matches every string whose escaped form is a member, and it
  still matches a string after one more member is added.
\<close>

definition regex_contract :: "platform \<Rightarrow> helpers \<Rightarrow> bool" where
  "regex_contract P H \<longleftrightarrow>
     (\<forall>S x. escaped_variants H S \<longrightarrow> x \<noteq> [] \<longrightarrow> escape_regex H x \<in> set S
          \<longrightarrow> fragment_matches P (setToPattern H S) x)
     \<and> (\<forall>S y x. escaped_variants H S \<longrightarrow> y \<noteq> [] \<longrightarrow> x \<noteq> []
          \<longrightarrow> fragment_matches P (setToPattern H S) x
          \<longrightarrow> fragment_matches P (setToPattern H (S @ [escape_regex H y])) x)"

text \<open>What the loop of \<open>generateSets\<close> keeps true of the sets and of the values seen.\<close>

definition sets_ok :: "platform \<Rightarrow> helpers \<Rightarrow> unicode_sets \<Rightarrow> bool" where
  "sets_ok P H sets \<longleftrightarrow>
     (\<forall>k S. map_of sets k = Some S \<longrightarrow>
        S \<noteq> [] \<and> escaped_variants H S
        \<and> (hd S = escape_regex H k \<or> fragment_matches P (setToPattern H []) k))"

definition variants_match :: "platform \<Rightarrow> helpers \<Rightarrow> unicode_sets \<Rightarrow> code_point_obj \<Rightarrow> bool" where
  "variants_match P H sets v \<longleftrightarrow>
     fragment_matches P (setToPattern H (variants sets (folded v))) (folded v)
     \<and> fragment_matches P (setToPattern H (variants sets (folded v))) (composed v)"

subsection \<open>Notions for the analysis of the regular-expression fragment\<close>

text \<open>
  Expressions without anchors and the strings they match as a whole; the expression that
  the parser builds for a literal after \<open>cur\<close>, and for the alternatives of a group; a
  pattern that the parser reads, wherever it stands, as the expressions \<open>rs\<close> put after
  the current concatenation.
\<close>

primrec anchor_free :: "rx \<Rightarrow> bool" where
  "anchor_free (Chr c) = True"
| "anchor_free Bol = False"
| "anchor_free Eol = False"
| "anchor_free Eps = True"
| "anchor_free (Seq a b) = (anchor_free a \<and> anchor_free b)"
| "anchor_free (Alt a b) = (anchor_free a \<and> anchor_free b)"

primrec lang :: "(16 word \<Rightarrow> 16 word) \<Rightarrow> rx \<Rightarrow> ustring set" where
  "lang canon (Chr c) = {[d] | d. canon c = canon d}"
| "lang canon Bol = {}"
| "lang canon Eol = {}"
| "lang canon Eps = {[]}"
| "lang canon (Seq a b) = {u @ v | u v. u \<in> lang canon a \<and> v \<in> lang canon b}"
| "lang canon (Alt a b) = lang canon a \<union> lang canon b"

definition lit_rx :: "ustring \<Rightarrow> rx \<Rightarrow> rx" where
  "lit_rx y cur = foldl (\<lambda>r c. Seq r (Chr c)) cur y"

definition alts_rx :: "rx \<Rightarrow> ustring list \<Rightarrow> rx" where
  "alts_rx A ys = foldl (\<lambda>A y. Alt A (lit_rx y Eps)) A ys"

definition units_rx :: "ustring \<Rightarrow> rx list \<Rightarrow> bool" where
  "units_rx p rs \<longleftrightarrow>
     (\<forall>r \<in> set rs. anchor_free r)
     \<and> (\<forall>rest a cur stack.
           rx_parse (p @ rest) (a, cur) stack = rx_parse rest (a, foldl Seq cur rs) stack)"

subsection \<open>Notions for the analysis of the matcher of multi-character keys\<close>

text \<open>The keys of the map that have more than one code unit.\<close>

definition multi_char_keys :: "state \<Rightarrow> ustring set" where
  "multi_char_keys st = {k \<in> dom (unicode_map st). 1 < length k}"

text \<open>
  What \<open>getPattern\<close> needs of \<open>arrayToPattern\<close>, \<open>escape_regex\<close> and the engine together,
  for the matcher that \<open>generateMap\<close> compiles with the flag \<open>u\<close> from the escaped keys of
  more than one code unit: it fails only on a string in which no key occurs, and what it
  matches is a key that stands in the string at the index of the match.
\<close>

definition matcher_contract :: "platform \<Rightarrow> helpers \<Rightarrow> bool" where
  "matcher_contract P H \<longleftrightarrow>
     (\<forall>ks. ks \<noteq> [] \<longrightarrow> (\<forall>k \<in> set ks. 1 < length k) \<longrightarrow>
        (\<exists>re. new_RegExp P (arrayToPattern H (map (escape_regex H) ks)) ''u'' = Some re
              \<and> (\<forall>s. case re s of
                       None \<Rightarrow> \<forall>k \<in> set ks. \<not> sublist k s
                     | Some (j, m) \<Rightarrow> m \<in> set ks \<and> prefix m (drop j s))))"

text \<open>The same, of the matcher of a state.\<close>

definition matcher_ok :: "state \<Rightarrow> bool" where
  "matcher_ok st \<longleftrightarrow>
     (\<forall>s. case multi_char_reg st s of
            None \<Rightarrow> \<forall>k \<in> multi_char_keys st. \<not> sublist k s
          | Some (j, m) \<Rightarrow> m \<in> multi_char_keys st \<and> prefix m (drop j s))"

subsection \<open>Notions for the analysis of the patterns\<close>

text \<open>
  The patterns that the library builds with the helpers: from the empty pattern, the
  single characters that are not syntax characters and the alternations of the sets of
  variants, by \<open>sequencePattern\<close> (of an array that may hold \<open>undefined\<close>), by
  \<open>arrayToPattern\<close> and by writing one pattern after the other.
\<close>

inductive_set built :: "helpers \<Rightarrow> ustring set" for H :: helpers where
  empty: "[] \<in> built H"
| literal: "c \<notin> set syntax_chars \<Longrightarrow> [c] \<in> built H"
| variants: "escaped_variants H S \<Longrightarrow> S \<noteq> [] \<Longrightarrow> setToPattern H S \<in> built H"
| sequence: "(\<forall>p. Some p \<in> set qs \<longrightarrow> p \<in> built H) \<Longrightarrow> sequencePattern H qs \<in> built H"
| alternation: "(\<forall>p \<in> set ps. p \<in> built H) \<Longrightarrow> arrayToPattern H ps \<in> built H"
| concatenation: "p \<in> built H \<Longrightarrow> q \<in> built H \<Longrightarrow> p @ q \<in> built H"

text \<open>
  What \<open>getPattern\<close> needs of \<open>sequencePattern\<close>, \<open>arrayToPattern\<close>, \<open>setToPattern\<close> and the
  engine together, on the patterns so built: a concatenation matches the concatenation of
  what its members match; an alternation matches what a non-empty member matches; two
  patterns written one after the other match what they match, one after the other; a
  pattern that matches a string as a whole matches in it; a character that is not a syntax
  character matches itself; the empty pattern matches the empty string only; and the
  alternation of a non-empty set of variants is not the empty pattern.
\<close>

definition pattern_contract :: "platform \<Rightarrow> helpers \<Rightarrow> bool" where
  "pattern_contract P H \<longleftrightarrow>
     (\<forall>ps xs. list_all2 (\<lambda>p x. p \<in> built H \<and> fragment_matches P p x) ps xs
          \<longrightarrow> fragment_matches P (sequencePattern H (map Some ps)) (concat xs))
   \<and> (\<forall>ps p x. set ps \<subseteq> built H \<longrightarrow> p \<in> set ps \<longrightarrow> p \<noteq> [] \<longrightarrow> fragment_matches P p x
          \<longrightarrow> fragment_matches P (arrayToPattern H ps) x)
   \<and> (\<forall>p q x y. p \<in> built H \<longrightarrow> q \<in> built H \<longrightarrow> fragment_matches P p x
          \<longrightarrow> fragment_matches P q y \<longrightarrow> fragment_matches P (p @ q) (x @ y))
   \<and> (\<forall>p x. p \<in> built H \<longrightarrow> fragment_matches P p x \<longrightarrow> pattern_matches P p x)
   \<and> (\<forall>c. c \<notin> set syntax_chars \<longrightarrow> fragment_matches P [c] [c])
   \<and> (\<forall>x. fragment_matches P [] x \<longleftrightarrow> x = [])
   \<and> (\<forall>S. escaped_variants H S \<longrightarrow> S \<noteq> [] \<longrightarrow> setToPattern H S \<noteq> [])"

text \<open>
  What \<open>substringsToPattern\<close> needs of \<open>allSubstrings\<close>: it lists the partitions of a
  string into contiguous non-empty pieces, all of them.
\<close>

definition substrings_contract :: "helpers \<Rightarrow> bool" where
  "substrings_contract H \<longleftrightarrow>
     (\<forall>s. set (allSubstrings H s) = {sub. concat sub = s \<and> [] \<notin> set sub})"

text \<open>
  The fragment that \<open>mapSequence\<close> puts for a run: the map's pattern for a key, the run
  itself otherwise.
\<close>

definition fragment :: "state \<Rightarrow> ustring \<Rightarrow> ustring" where
  "fragment st run = fst (mapSequence_callback (unicode_map st) run)"

text \<open>
  A map whose keys are not empty and whose patterns are built, not empty, and match their
  keys.
\<close>

definition good_map :: "platform \<Rightarrow> helpers \<Rightarrow> (ustring \<Rightarrow> ustring option) \<Rightarrow> bool" where
  "good_map P H m \<longleftrightarrow>
     (\<forall>k f. m k = Some f \<longrightarrow> k \<noteq> [] \<and> f \<noteq> [] \<and> f \<in> built H \<and> fragment_matches P f k)"

text \<open>
  A variant of a text: the text itself or, for a key of the map, a character that the
  generator yields with this fold.
\<close>

definition variant_of ::
  "platform \<Rightarrow> (int \<times> int) list \<Rightarrow> state \<Rightarrow> ustring \<Rightarrow> ustring \<Rightarrow> bool" where
  "variant_of P code_points st g v \<longleftrightarrow>
     v = g
     \<or> (unicode_map st g \<noteq> None
        \<and> (\<exists>e \<in> set (generator P code_points). folded e = g \<and> composed e = v))"

text \<open>
  A pattern covers a list of texts when it matches, as a whole, every concatenation of
  strings that the fragments of the texts match in turn.
\<close>

definition covers :: "platform \<Rightarrow> state \<Rightarrow> ustring \<Rightarrow> ustring list \<Rightarrow> bool" where
  "covers P st pattern gs \<longleftrightarrow>
     (\<forall>vs. list_all2 (\<lambda>g v. fragment_matches P (fragment st g) v) gs vs
          \<longrightarrow> fragment_matches P pattern (concat vs))"

subsection \<open>Notions for the analysis of the scan\<close>

text \<open>
  The condition of the first branch of the loop over the sequences,
  \<open>!last_piece || last_piece.length == 1 || last_piece.end <= i\<close>; the Part and the member
  of \<open>added_types\<close> that this branch adds; and the clone that the second branch queues.
\<close>

definition extends_at :: "nat \<Rightarrow> sequence \<Rightarrow> bool" where
  "extends_at i sequence \<longleftrightarrow>
     (case Sequence_last sequence of None \<Rightarrow> True | Some lp \<Rightarrow> length_p lp = 1 \<or> end_p lp \<le> i)"

definition added_part :: "nat \<Rightarrow> ustring option \<Rightarrow> ustring \<Rightarrow> part" where
  "added_part i match char =
     (case match of Some m0 \<Rightarrow> match_part i m0 | None \<Rightarrow> char_part i char)"

definition added_kind :: "ustring option \<Rightarrow> ustring \<Rightarrow> added_type" where
  "added_kind match char = (case match of Some m0 \<Rightarrow> Added_match m0 | None \<Rightarrow> Added_char char)"

definition clone_with :: "nat \<Rightarrow> ustring \<Rightarrow> sequence \<Rightarrow> sequence" where
  "clone_with i m0 s =
     (case Sequence_clone s i (the (Sequence_last s)) of
        Inr clone \<Rightarrow> Sequence_add clone (match_part i m0)
      | Inl e \<Rightarrow> s)"

text \<open>Only \<open>add\<close> extends a sequence, so \<open>substrs\<close> lists the texts of \<open>parts\<close>.\<close>

definition substrs_ok :: "sequence list \<Rightarrow> bool" where
  "substrs_ok seqs \<longleftrightarrow> (\<forall>s \<in> set seqs. substrs s = map substr (parts s))"



text \<open>
  The segmentation of the folded input that the first live sequence follows: from left to
  right, at a position that no text covers yet, the multi-character key that the matcher
  finds there, or else the single code unit. \<open>greedy st str i\<close> gives the texts begun
  before position \<open>i\<close> and the position where the last of them ends.
\<close>

primrec greedy :: "state \<Rightarrow> ustring \<Rightarrow> nat \<Rightarrow> ustring list \<times> nat" where
  "greedy st str 0 = ([], 0)"
| "greedy st str (Suc i) =
     (let (gs, e) = greedy st str i
      in if e \<le> i
         then (case match_at st str i of
                 Some m0 \<Rightarrow> (gs @ [m0], i + length m0)
               | None \<Rightarrow> (gs @ [take 1 (drop i str)], Suc i))
         else (gs, e))"

declare greedy.simps(2) [simp del]

text \<open>
  The texts that \<open>getPattern\<close> maps: the code points of the folded input when the matcher
  finds no multi-character key in it, the segmentation above otherwise.
\<close>

definition segmentation :: "state \<Rightarrow> ustring \<Rightarrow> ustring list" where
  "segmentation st str =
     (if multi_char_reg st str = None then Array_from str
      else fst (greedy st str (length str)))"

text \<open>
  What the scan keeps true before the turn of position \<open>i\<close>: the output pattern covers the
  first \<open>k\<close> texts of the segmentation, the first live sequence holds the other texts and
  ends where the segmentation ends, and the texts of all live sequences are made of code
  units of the input.
\<close>

definition head_ok :: "state \<Rightarrow> ustring \<Rightarrow> nat \<Rightarrow> nat \<Rightarrow> sequence \<Rightarrow> bool" where
  "head_ok st str i k h \<longleftrightarrow>
     k \<le> length (fst (greedy st str i)) \<and> (0 < i \<longrightarrow> k < length (fst (greedy st str i)))
     \<and> map substr (parts h) = drop k (fst (greedy st str i))
     \<and> (parts h \<noteq> [] \<longrightarrow>
          end_p (last (parts h)) = snd (greedy st str i)
          \<and> start_p (last (parts h)) < i
          \<and> (length_p (last (parts h)) = 1 \<longrightarrow> snd (greedy st str i) \<le> i))"

definition texts_ok :: "ustring \<Rightarrow> sequence list \<Rightarrow> bool" where
  "texts_ok str seqs \<longleftrightarrow>
     (\<forall>s \<in> set seqs. substrs s = map substr (parts s)
        \<and> (\<forall>p \<in> set (parts s). set (substr p) \<subseteq> set str))"

definition scan_inv ::
  "platform \<Rightarrow> helpers \<Rightarrow> state \<Rightarrow> ustring \<Rightarrow> nat \<Rightarrow> ustring \<times> sequence list \<Rightarrow> bool" where
  "scan_inv P H st str i acc \<longleftrightarrow>
     (\<exists>k h rest.
        snd acc = h # rest \<and> head_ok st str i k h \<and> fst acc \<in> built H
        \<and> covers P st (fst acc) (take k (fst (greedy st str i)))
        \<and> texts_ok str (h # rest))"

section \<open>Folding a folded string\<close>

lemma replace_convert_append:
  "replace_convert (xs @ ys) = replace_convert xs @ replace_convert ys"
  by (simp add: replace_convert_def)

lemma replace_convert_Cons:
  "replace_convert (c # s) = (if convert_pat c then convert_char c else [c]) @ replace_convert s"
  by (simp add: replace_convert_def)

lemma convert_pat_cases:
  "convert_pat c \<Longrightarrow>
     c = 0x00E6 \<or> c = 0x2C65 \<or> c = 0x00F8 \<or> c = 0x2044 \<or> c = 0x2215
     \<or> (accent_pat c \<and> map_of latin_convert c = None)"
  by (auto simp: convert_pat_def latin_convert_def accent_pat_def)

text \<open>No replacement text holds a character that \<open>convert_pat\<close> matches.\<close>

lemma replace_convert_convert_char:
  "convert_pat c \<Longrightarrow> replace_convert (convert_char c) = convert_char c"
  by (drule convert_pat_cases)
     (auto simp: convert_char_def latin_convert_def replace_convert_def convert_pat_def
        accent_pat_def ustr_def)

lemma replace_convert_idem: "replace_convert (replace_convert s) = replace_convert s"
proof (induction s)
  case Nil
  show ?case by (simp add: replace_convert_def)
next
  case (Cons c s)
  show ?case
  proof (cases "convert_pat c")
    case True
    then show ?thesis
      by (simp add: replace_convert_Cons replace_convert_append replace_convert_convert_char
          Cons.IH)
  next
    case False
    then show ?thesis
      by (simp add: replace_convert_Cons Cons.IH)
  qed
qed

text \<open>
  Claim C3: \<open>fold(fold(s)) == fold(s)\<close> for every string \<open>s\<close>. The code breaks it on
  U+05B1 U+00B7 U+05B0: the first fold removes the middle dot and leaves the two Hebrew
  points in the order of combining classes 11, 10; the second fold's \<open>decompose\<close> calls
  \<open>normalize('NFKD')\<close> on the whole string, which puts them into canonical order.
  \<open>decompose\<close> is documented as a decomposition "without reordering string", but it
  reorders these two points, and the very string of its documentation (U+0594 U+0595
  U+0596), too. Its other branch, taken when a code unit of U+0F71..U+0F81 occurs,
  decomposes code unit by code unit and does not reorder: with U+0F71 appended to the
  same input, the second fold changes nothing.
\<close>

theorem asciifold_not_idempotent:
  "asciifold frag_platform [0x05B1, 0x00B7, 0x05B0] = [0x05B1, 0x05B0]
   \<and> asciifold frag_platform [0x05B1, 0x05B0] = [0x05B0, 0x05B1]
   \<and> asciifold frag_platform (asciifold frag_platform [0x05B1, 0x00B7, 0x05B0])
       \<noteq> asciifold frag_platform [0x05B1, 0x00B7, 0x05B0]
   \<and> decompose frag_platform [0x05B1, 0x05B0] = [0x05B0, 0x05B1]
   \<and> decompose frag_platform [0x0594, 0x0595, 0x0596] = [0x0596, 0x0594, 0x0595]
   \<and> decompose frag_platform [0x05B1, 0x05B0, 0x0F71] = [0x05B1, 0x05B0, 0x0F71]
   \<and> asciifold frag_platform [0x05B1, 0x00B7, 0x05B0, 0x0F71] = [0x05B1, 0x05B0, 0x0F71]
   \<and> asciifold frag_platform (asciifold frag_platform [0x05B1, 0x00B7, 0x05B0, 0x0F71])
       = asciifold frag_platform [0x05B1, 0x00B7, 0x05B0, 0x0F71]"
  by code_simp

text \<open>
  The replacement step never produces a character that it would replace, so a second fold
  can differ from the first only through \<open>decompose\<close> or the lower-casing: wherever these
  two leave the folded string as it is, the second fold does.
\<close>

lemma asciifold_fixed_by_decompose:
  assumes "decompose P (asciifold P s) = asciifold P s"
    and "toLowerCase P (asciifold P s) = asciifold P s"
  shows "asciifold P (asciifold P s) = asciifold P s"
proof -
  have "asciifold P (asciifold P s) = replace_convert (asciifold P s)"
    using assms by (simp add: asciifold_def)
  also have "\<dots> = asciifold P s"
    by (simp add: asciifold_def replace_convert_idem)
  finally show ?thesis .
qed

section \<open>The generator\<close>

lemma fromCharCode_mod: "fromCharCode (i mod 2 ^ 16) = fromCharCode i"
  unfolding fromCharCode_def
  by (simp add: word_of_int_eq_iff take_bit_eq_mod)

text \<open>
  Claim C9: the generator renders the code point \<open>i\<close> with \<open>String.fromCharCode(i)\<close>, that
  is as the one code unit \<open>i mod 2^16\<close>, so what it folds and yields for \<open>i\<close> is what it
  folds and yields for \<open>i mod 2^16\<close>, under the code point \<open>i\<close>.
\<close>

theorem generator_step_wraps:
  "fromCharCode i = [word_of_int (i mod 2 ^ 16)]
   \<and> generator_step P i
       = map_option (code_point_update (\<lambda>_. i)) (generator_step P (i mod 2 ^ 16))"
proof
  show "fromCharCode i = [word_of_int (i mod 2 ^ 16)]"
    using fromCharCode_mod [of i] by (simp add: fromCharCode_def)
  show "generator_step P i
          = map_option (code_point_update (\<lambda>_. i)) (generator_step P (i mod 2 ^ 16))"
    unfolding generator_step_def fromCharCode_mod by (simp add: Let_def)
qed

text \<open>
  At U+1FB00, beyond the Basic Multilingual Plane, the generator yields the entry of
  U+FB00, the ligature ff.
\<close>

theorem generator_step_wraps_witness:
  "generator_step frag_platform 0x1FB00
     = Some \<lparr>folded = ustr ''ff'', composed = [0xFB00], code_point = 0x1FB00\<rparr>"
proof -
  have m: "(0x1FB00 :: int) mod 2 ^ 16 = 0xFB00"
    by simp
  have "generator_step frag_platform 0xFB00
          = Some \<lparr>folded = ustr ''ff'', composed = [0xFB00], code_point = 0xFB00\<rparr>"
    by code_simp
  with generator_step_wraps [where i = "0x1FB00" and P = frag_platform] m show ?thesis
    by simp
qed

lemma generator_step_Some:
  "generator_step P i = Some v \<longleftrightarrow>
     \<not> (asciifold P (fromCharCode i) = toLowerCase P (fromCharCode i)
        \<or> asciifold P (fromCharCode i) = []
        \<or> length (asciifold P (fromCharCode i)) > 3
        \<or> (normalize_NFC P (normalize_NFKD P (fromCharCode i)) = fromCharCode i
            \<and> asciifold P (fromCharCode i) = normalize_NFKD P (fromCharCode i)))
     \<and> v = \<lparr>folded = asciifold P (fromCharCode i), composed = fromCharCode i, code_point = i\<rparr>"
  by (auto simp: generator_step_def Let_def max_char_length_def)

lemma set_map_filter_eq:
  "set (List.map_filter f xs) = {y. \<exists>x \<in> set xs. f x = Some y}"
  by (induction xs) (auto split: option.splits)

lemma set_generator:
  "v \<in> set (generator P code_points)
     \<longleftrightarrow> (\<exists>r \<in> set code_points. \<exists>i. fst r \<le> i \<and> i \<le> snd r \<and> generator_step P i = Some v)"
  by (simp add: generator_def set_map_filter_eq Bex_def)

lemma generator_step_code_point: "generator_step P j = Some v \<Longrightarrow> code_point v = j"
  by (auto simp: generator_step_Some)

lemma generator_code_point_iff:
  "(\<exists>v \<in> set (generator P code_points). code_point v = i)
     \<longleftrightarrow> (\<exists>r \<in> set code_points. fst r \<le> i \<and> i \<le> snd r) \<and> generator_step P i \<noteq> None"
proof
  assume "\<exists>v \<in> set (generator P code_points). code_point v = i"
  then obtain v r j where "r \<in> set code_points" "fst r \<le> j" "j \<le> snd r"
    "generator_step P j = Some v" "code_point v = i"
    by (auto simp: set_generator)
  moreover from this have "j = i"
    using generator_step_code_point by blast
  ultimately show "(\<exists>r \<in> set code_points. fst r \<le> i \<and> i \<le> snd r) \<and> generator_step P i \<noteq> None"
    by auto
next
  assume a: "(\<exists>r \<in> set code_points. fst r \<le> i \<and> i \<le> snd r) \<and> generator_step P i \<noteq> None"
  then obtain v where v: "generator_step P i = Some v" by auto
  with a have "v \<in> set (generator P code_points)"
    by (auto simp: set_generator)
  with generator_step_code_point [OF v] show "\<exists>v \<in> set (generator P code_points). code_point v = i"
    by auto
qed

lemma generator_step_None:
  "generator_step P i \<noteq> None \<longleftrightarrow>
     \<not> (asciifold P (fromCharCode i) = toLowerCase P (fromCharCode i)
        \<or> asciifold P (fromCharCode i) = []
        \<or> length (asciifold P (fromCharCode i)) > 3
        \<or> (normalize_NFC P (normalize_NFKD P (fromCharCode i)) = fromCharCode i
            \<and> asciifold P (fromCharCode i) = normalize_NFKD P (fromCharCode i)))"
  by (auto simp: generator_step_def Let_def max_char_length_def)

lemma addMatching_cases:
  assumes "addMatching P H sets k x = Inr sets'"
  shows "sets' = sets \<or> (\<exists>S. sets' = AList.update k S sets)"
  using assms by (auto simp: addMatching_def Let_def split: option.splits if_splits)

lemma addMatching_keys:
  assumes "addMatching P H sets k x = Inr sets'"
  shows "fst ` set sets' \<subseteq> insert k (fst ` set sets)"
  using addMatching_cases [OF assms]
  by (elim disjE exE) (simp_all add: AList.dom_update subset_insertI)

lemma subset_chain:
  "A \<subseteq> insert x B \<Longrightarrow> C \<subseteq> insert x A \<Longrightarrow> D \<subseteq> C \<union> E \<Longrightarrow> D \<subseteq> insert x B \<union> E"
  by blast

lemma generateSets_loop_keys:
  "generateSets_loop P H vs sets = Inr sets' \<Longrightarrow>
     fst ` set sets' \<subseteq> fst ` set sets \<union> folded ` set vs"
proof (induction vs arbitrary: sets)
  case Nil
  then show ?case by simp
next
  case (Cons v vs)
  from Cons.prems obtain s1 s2 where
    a1: "addMatching P H sets (folded v) (folded v) = Inr s1" and
    a2: "addMatching P H s1 (folded v) (composed v) = Inr s2" and
    r: "generateSets_loop P H vs s2 = Inr sets'"
    by (auto split: sum.splits)
  have "fst ` set sets' \<subseteq> insert (folded v) (fst ` set sets) \<union> folded ` set vs"
    by (rule subset_chain [OF addMatching_keys [OF a1] addMatching_keys [OF a2] Cons.IH [OF r]])
  then show ?case by simp
qed

lemma generateMap_keys:
  assumes "generateMap P H code_points = Inr st" and "unicode_map st k \<noteq> None"
  shows "k \<in> folded ` set (generator P code_points)"
proof -
  from assms(1) obtain sets where
    s: "generateSets P H code_points = Inr sets" and
    m: "unicode_map st = map_of (map (\<lambda>(fld, s). (fld, setToPattern H s)) sets)"
    by (auto simp: generateMap_def Let_def split: sum.splits option.splits)
  from assms(2) m have "k \<in> fst ` set sets"
    by (simp add: map_of_eq_None_iff image_image case_prod_beta)
  with generateSets_loop_keys [of P H "generator P code_points" "[]" sets] s
  show ?thesis by (auto simp: generateSets_def)
qed

text \<open>
  Claim C4: for a code point \<open>i\<close> the generator yields an entry exactly when \<open>i\<close> lies in
  a supplied range and none of the skip conditions holds for the character \<open>c\<close> it
  renders: \<open>fold(c)\<close> equals \<open>c.toLowerCase()\<close>, \<open>fold(c)\<close> is empty, \<open>fold(c)\<close> is longer
  than 3, or \<open>c\<close> is the recomposition of its decomposition and \<open>fold(c)\<close> is that
  decomposition. The entry is \<open>(fold(c), c, i)\<close>. Every key of the map built from the
  ranges is the fold of a yielded entry, so it has 1 to 3 code units: a fold of more
  than 3 is no key.
\<close>

theorem generator_yields_iff:
  "((\<exists>v \<in> set (generator P code_points). code_point v = i) \<longleftrightarrow>
      (\<exists>r \<in> set code_points. fst r \<le> i \<and> i \<le> snd r)
      \<and> \<not> (asciifold P (fromCharCode i) = toLowerCase P (fromCharCode i)
           \<or> asciifold P (fromCharCode i) = []
           \<or> length (asciifold P (fromCharCode i)) > 3
           \<or> (normalize_NFC P (normalize_NFKD P (fromCharCode i)) = fromCharCode i
               \<and> asciifold P (fromCharCode i) = normalize_NFKD P (fromCharCode i))))
   \<and> (\<forall>v \<in> set (generator P code_points).
         v = \<lparr>folded = asciifold P (fromCharCode (code_point v)),
              composed = fromCharCode (code_point v), code_point = code_point v\<rparr>)
   \<and> (generateMap P H code_points = Inr st \<longrightarrow>
        (\<forall>k. unicode_map st k \<noteq> None \<longrightarrow>
           1 \<le> length k \<and> length k \<le> 3
           \<and> (\<exists>v \<in> set (generator P code_points). folded v = k)))"
proof (intro conjI impI allI ballI)
  show "(\<exists>v \<in> set (generator P code_points). code_point v = i) \<longleftrightarrow>
      (\<exists>r \<in> set code_points. fst r \<le> i \<and> i \<le> snd r)
      \<and> \<not> (asciifold P (fromCharCode i) = toLowerCase P (fromCharCode i)
           \<or> asciifold P (fromCharCode i) = []
           \<or> length (asciifold P (fromCharCode i)) > 3
           \<or> (normalize_NFC P (normalize_NFKD P (fromCharCode i)) = fromCharCode i
               \<and> asciifold P (fromCharCode i) = normalize_NFKD P (fromCharCode i)))"
    unfolding generator_code_point_iff generator_step_None ..
next
  fix v assume "v \<in> set (generator P code_points)"
  then obtain j where j: "generator_step P j = Some v"
    by (auto simp: set_generator)
  with generator_step_code_point [OF j]
  show "v = \<lparr>folded = asciifold P (fromCharCode (code_point v)),
              composed = fromCharCode (code_point v), code_point = code_point v\<rparr>"
    by (simp add: generator_step_Some)
next
  fix k assume g: "generateMap P H code_points = Inr st" and k: "unicode_map st k \<noteq> None"
  from generateMap_keys [OF g k] obtain v where
    v: "v \<in> set (generator P code_points)" "folded v = k" by auto
  from v(1) obtain j where j: "generator_step P j = Some v"
    by (auto simp: set_generator)
  then have "1 \<le> length (folded v) \<and> length (folded v) \<le> 3"
    by (auto simp: generator_step_Some Suc_le_eq)
  with v show "1 \<le> length k" "length k \<le> 3" "\<exists>v \<in> set (generator P code_points). folded v = k"
    by auto
qed

text \<open>
  U+2167 lies in the example table and folds to the four characters \<open>viii\<close>: it is not
  yielded, and \<open>viii\<close> is no key of the map.
\<close>

theorem generator_yields_iff_witness:
  "length (asciifold frag_platform (fromCharCode 0x2167)) = 4
   \<and> \<not> (\<exists>v \<in> set (generator frag_platform example_code_points). code_point v = 0x2167)
   \<and> generateMap frag_platform spec_helpers example_code_points = Inr example_state
   \<and> unicode_map example_state (asciifold frag_platform (fromCharCode 0x2167)) = None"
proof -
  have l: "length (asciifold frag_platform (fromCharCode 0x2167)) = 4"
    by code_simp
  note t = generator_yields_iff
             [where P = frag_platform and code_points = example_code_points and i = "0x2167"
                and H = spec_helpers and st = example_state]
  from t [THEN conjunct1] have n: "\<not> (\<exists>v \<in> set (generator frag_platform example_code_points).
                          code_point v = 0x2167)"
    unfolding l by simp
  have "unicode_map example_state (asciifold frag_platform (fromCharCode 0x2167)) = None"
  proof (rule ccontr)
    assume "unicode_map example_state (asciifold frag_platform (fromCharCode 0x2167)) \<noteq> None"
    from t [THEN conjunct2, THEN conjunct2, rule_format, OF example_generateMap this]
    have "length (asciifold frag_platform (fromCharCode 0x2167)) \<le> 3"
      by simp
    with l show False by simp
  qed
  with l n example_generateMap show ?thesis by simp
qed

section \<open>mapSequence and substringsToPattern\<close>

lemma mapSequence_loop_snd:
  "snd (mapSequence_loop m strings) = map (\<lambda>run. fst (mapSequence_callback m run)) strings"
  by (induction strings) (auto simp: Let_def split: prod.splits)

lemma mapSequence_eq:
  "mapSequence H m strings mr =
     (if mr \<le> int (fst (mapSequence_loop m strings))
      then Some (sequencePattern H (map (\<lambda>run. Some (fst (mapSequence_callback m run))) strings))
      else None)"
  using mapSequence_loop_snd [of m strings]
  by (auto simp: mapSequence_def Let_def comp_def split: prod.splits)

lemma mapSequence_callback_None: "m run = None \<Longrightarrow> fst (mapSequence_callback m run) = run"
  by (simp add: mapSequence_callback_def)

lemma concat_Array_from: "concat (Array_from s) = s"
  by (induction s rule: Array_from.induct) auto

lemma spec_sequencePattern_Some: "spec_sequencePattern (map Some xs) = concat xs"
  by (simp add: spec_sequencePattern_def comp_def)

text \<open>
  Claim C10: \<open>mapSequence\<close> hands every run that has no entry in the map to
  \<open>sequencePattern\<close> as it is, and \<open>escape_regex\<close> has no part in its result. So, where
  \<open>sequencePattern\<close> concatenates and the folded input has neither a multi-character key
  nor a mapped code point, the pattern of \<open>getPattern\<close> is the folded input itself,
  syntax characters included.
\<close>

theorem mapSequence_unmapped_verbatim:
  "(mapSequence H m strings mr = Some p \<longrightarrow>
      (\<exists>frags. p = sequencePattern H (map Some frags) \<and> length frags = length strings
         \<and> (\<forall>j < length strings. m (strings ! j) = None \<longrightarrow> frags ! j = strings ! j)))
   \<and> mapSequence (H\<lparr>escape_regex := esc\<rparr>) m strings mr = mapSequence H m strings mr
   \<and> (multi_char_reg st (asciifold P input) = None
        \<and> (\<forall>run \<in> set (Array_from (asciifold P input)). unicode_map st run = None)
      \<longrightarrow> getPattern_body P (H\<lparr>sequencePattern := spec_sequencePattern\<rparr>) st input
            = Inr (Some (asciifold P input)))"
proof (intro conjI impI)
  assume "mapSequence H m strings mr = Some p"
  then have "p = sequencePattern H
                   (map Some (map (\<lambda>run. fst (mapSequence_callback m run)) strings))"
    by (simp add: mapSequence_eq comp_def split: if_splits)
  then show "\<exists>frags. p = sequencePattern H (map Some frags) \<and> length frags = length strings
         \<and> (\<forall>j < length strings. m (strings ! j) = None \<longrightarrow> frags ! j = strings ! j)"
    by (intro exI [of _ "map (\<lambda>run. fst (mapSequence_callback m run)) strings"])
       (simp add: mapSequence_callback_None)
next
  show "mapSequence (H\<lparr>escape_regex := esc\<rparr>) m strings mr = mapSequence H m strings mr"
    by (simp add: mapSequence_eq)
next
  assume a: "multi_char_reg st (asciifold P input) = None
        \<and> (\<forall>run \<in> set (Array_from (asciifold P input)). unicode_map st run = None)"
  then have eq: "map (\<lambda>run. Some (fst (mapSequence_callback (unicode_map st) run)))
                    (Array_from (asciifold P input))
               = map Some (Array_from (asciifold P input))"
    by (auto simp: mapSequence_callback_None)
  from a show "getPattern_body P (H\<lparr>sequencePattern := spec_sequencePattern\<rparr>) st input
            = Inr (Some (asciifold P input))"
    by (simp add: getPattern_body_def mapSequence_eq Let_def eq spec_sequencePattern_Some
        concat_Array_from)
qed

text \<open>With the example table, the pattern for the input \<open>a+b\<close> is \<open>a+b\<close>.\<close>

theorem mapSequence_unmapped_verbatim_witness:
  "multi_char_reg example_state (asciifold frag_platform (ustr ''a+b'')) = None
   \<and> list_all (\<lambda>run. unicode_map example_state run = None)
        (Array_from (asciifold frag_platform (ustr ''a+b'')))
   \<and> asciifold frag_platform (ustr ''a+b'') = ustr ''a+b''
   \<and> getPattern_body frag_platform spec_helpers example_state (ustr ''a+b'')
       = Inr (Some (ustr ''a+b''))"
proof -
  have h1: "multi_char_reg example_state (asciifold frag_platform (ustr ''a+b'')) = None"
    by code_simp
  have h2: "list_all (\<lambda>run. unicode_map example_state run = None)
              (Array_from (asciifold frag_platform (ustr ''a+b'')))"
    by code_simp
  have f: "asciifold frag_platform (ustr ''a+b'') = ustr ''a+b''"
    by code_simp
  have H: "spec_helpers\<lparr>sequencePattern := spec_sequencePattern\<rparr> = spec_helpers"
    by (simp add: spec_helpers_def)
  from h2 have h2': "\<forall>run \<in> set (Array_from (asciifold frag_platform (ustr ''a+b''))).
                       unicode_map example_state run = None"
    by (simp add: list_all_iff)
  from mapSequence_unmapped_verbatim
         [where H = spec_helpers and st = example_state and P = frag_platform
            and input = "ustr ''a+b''"]
       h1 h2'
  have "getPattern_body frag_platform spec_helpers example_state (ustr ''a+b'')
          = Inr (Some (asciifold frag_platform (ustr ''a+b'')))"
    unfolding H by blast
  with h1 h2 f show ?thesis by simp
qed

lemma substringsToPattern_loop_eq:
  "substringsToPattern_loop H m mr subs
     = filter (\<lambda>p. p \<noteq> []) (List.map_filter (\<lambda>sub. mapSequence H m sub mr) subs)"
  by (induction subs) (auto simp: List.map_filter_simps split: option.splits)

lemma substringsToPattern_loop_none:
  "\<forall>sub \<in> set subs. int (fst (mapSequence_loop m sub)) < mr \<Longrightarrow>
   substringsToPattern_loop H m mr subs = []"
  by (induction subs) (auto simp: mapSequence_eq)

lemma chars_replaced_empty: "fst (mapSequence_loop Map.empty sub) = 0"
  by (induction sub) (auto simp: mapSequence_callback_def Let_def split: prod.splits)

text \<open>
  Claim C5: \<open>substringsToPattern(str, min_replacement)\<close> maps every partition that
  \<open>allSubstrings\<close> gives with the minimum \<open>max(min_replacement, str.length - 1)\<close> and
  alternates the non-empty patterns; it returns nothing when the count of replaced
  characters of every partition is below that minimum. With no map entry at all,
  \<open>substringsToPattern("abc", 1)\<close> is nothing.
\<close>

theorem substringsToPattern_minimum:
  "substringsToPattern H m str mr
     = (case filter (\<lambda>p. p \<noteq> [])
              (List.map_filter (\<lambda>sub. mapSequence H m sub (max mr (int (length str) - 1)))
                 (allSubstrings H str)) of
          [] \<Rightarrow> None
        | p # ps \<Rightarrow> Some (arrayToPattern H (p # ps)))
   \<and> ((\<forall>sub \<in> set (allSubstrings H str).
          int (fst (mapSequence_loop m sub)) < max mr (int (length str) - 1))
        \<longrightarrow> substringsToPattern H m str mr = None)
   \<and> substringsToPattern H Map.empty (ustr ''abc'') 1 = None"
proof (intro conjI impI)
  show "substringsToPattern H m str mr
     = (case filter (\<lambda>p. p \<noteq> [])
              (List.map_filter (\<lambda>sub. mapSequence H m sub (max mr (int (length str) - 1)))
                 (allSubstrings H str)) of
          [] \<Rightarrow> None
        | p # ps \<Rightarrow> Some (arrayToPattern H (p # ps)))"
    by (simp add: substringsToPattern_def substringsToPattern_loop_eq Let_def split: list.splits)
next
  assume "\<forall>sub \<in> set (allSubstrings H str).
          int (fst (mapSequence_loop m sub)) < max mr (int (length str) - 1)"
  then show "substringsToPattern H m str mr = None"
    by (simp add: substringsToPattern_def substringsToPattern_loop_none Let_def)
next
  have "substringsToPattern_loop H Map.empty (max 1 (int (length (ustr ''abc'')) - 1))
          (allSubstrings H (ustr ''abc'')) = []"
    by (rule substringsToPattern_loop_none) (simp add: chars_replaced_empty ustr_def)
  then show "substringsToPattern H Map.empty (ustr ''abc'') 1 = None"
    by (simp add: substringsToPattern_def Let_def)
qed

text \<open>
  With the example table (the one key \<open>ff\<close>), no partition of \<open>xff\<close> replaces three
  characters.
\<close>

theorem substringsToPattern_minimum_witness:
  "list_all (\<lambda>sub. int (fst (mapSequence_loop (unicode_map example_state) sub))
                     < max 3 (int (length (ustr ''xff'')) - 1))
     (allSubstrings spec_helpers (ustr ''xff''))
   \<and> substringsToPattern spec_helpers (unicode_map example_state) (ustr ''xff'') 3 = None"
proof -
  have h: "list_all (\<lambda>sub. int (fst (mapSequence_loop (unicode_map example_state) sub))
                     < max 3 (int (length (ustr ''xff'')) - 1))
     (allSubstrings spec_helpers (ustr ''xff''))"
    by code_simp
  then have "\<forall>sub \<in> set (allSubstrings spec_helpers (ustr ''xff'')).
          int (fst (mapSequence_loop (unicode_map example_state) sub))
            < max 3 (int (length (ustr ''xff'')) - 1)"
    by (simp add: list_all_iff)
  with substringsToPattern_minimum
         [where H = spec_helpers and m = "unicode_map example_state" and str = "ustr ''xff''"
            and mr = 3]
  have "substringsToPattern spec_helpers (unicode_map example_state) (ustr ''xff'') 3 = None"
    by blast
  with h show ?thesis by simp
qed

section \<open>The scan over the folded input\<close>

lemma set_set_add: "set (set_add x xs) = insert x (set xs)"
  by (auto simp: set_add_def)

lemma for_sequences_Cons:
  "for_sequences i match char (s # rest) seqs_done ov ad =
     (if extends_at i s
      then for_sequences i match char rest (seqs_done @ [Sequence_add s (added_part i match char)])
             ov (set_add (added_kind match char) ad)
      else (case match of
              None \<Rightarrow> for_sequences i match char rest (seqs_done @ [s]) ov (set_add Not_adding ad)
            | Some m0 \<Rightarrow>
                (case Sequence_clone s i (the (Sequence_last s)) of
                   Inl e \<Rightarrow> Inl e
                 | Inr clone \<Rightarrow>
                     for_sequences i match char rest (seqs_done @ [s])
                       (ov @ [Sequence_add clone (match_part i m0)]) ad)))"
  by (simp add: extends_at_def added_part_def added_kind_def Let_def split: option.splits)

lemma for_sequences_mono:
  "for_sequences i match char seqs seqs_done ov ad = Inr (seqs', ov', ad')
     \<Longrightarrow> set ad \<subseteq> set ad' \<and> length ov \<le> length ov'"
proof (induction seqs arbitrary: seqs_done ov ad)
  case Nil
  then show ?case by simp
next
  case (Cons s rest)
  show ?case
  proof (cases "extends_at i s")
    case True
    with Cons.prems have "for_sequences i match char rest
        (seqs_done @ [Sequence_add s (added_part i match char)]) ov
        (set_add (added_kind match char) ad) = Inr (seqs', ov', ad')"
      by (simp only: for_sequences_Cons if_True)
    from Cons.IH [OF this] show ?thesis by (simp add: set_set_add)
  next
    case False
    show ?thesis
    proof (cases match)
      case None
      with False Cons.prems have "for_sequences i match char rest (seqs_done @ [s]) ov
          (set_add Not_adding ad) = Inr (seqs', ov', ad')"
        by (simp only: for_sequences_Cons if_False option.case)
      from Cons.IH [OF this] show ?thesis by (simp add: set_set_add)
    next
      case (Some m0)
      with False Cons.prems obtain clone where
        "for_sequences i match char rest (seqs_done @ [s])
           (ov @ [Sequence_add clone (match_part i m0)]) ad = Inr (seqs', ov', ad')"
        by (simp only: for_sequences_Cons if_False option.case split: sum.splits) auto
      from Cons.IH [OF this] show ?thesis by simp
    qed
  qed
qed

text \<open>When no clone is queued and no sequence is skipped, every sequence was extended.\<close>

lemma for_sequences_all_extended:
  assumes "for_sequences i match char seqs seqs_done ov ad = Inr (seqs', [], ad')"
    and "Not_adding \<notin> set ad'"
  shows "(\<forall>s \<in> set seqs. extends_at i s)
         \<and> seqs' = seqs_done @ map (\<lambda>s. Sequence_add s (added_part i match char)) seqs
         \<and> (seqs = [] \<longrightarrow> ad' = ad)"
  using assms
proof (induction seqs arbitrary: seqs_done ov ad)
  case Nil
  then show ?case by simp
next
  case (Cons s rest)
  show ?case
  proof (cases "extends_at i s")
    case True
    with Cons.prems(1) have r: "for_sequences i match char rest
        (seqs_done @ [Sequence_add s (added_part i match char)]) ov
        (set_add (added_kind match char) ad) = Inr (seqs', [], ad')"
      by (simp only: for_sequences_Cons if_True)
    from Cons.IH [OF r Cons.prems(2)] True show ?thesis
      by simp
  next
    case False
    show ?thesis
    proof (cases match)
      case None
      with False Cons.prems(1) have r: "for_sequences i match char rest (seqs_done @ [s]) ov
          (set_add Not_adding ad) = Inr (seqs', [], ad')"
        by (simp only: for_sequences_Cons if_False option.case)
      from for_sequences_mono [OF r] Cons.prems(2) show ?thesis
        by (simp add: set_set_add)
    next
      case (Some m0)
      with False Cons.prems(1) obtain clone where
        r: "for_sequences i match char rest (seqs_done @ [s])
              (ov @ [Sequence_add clone (match_part i m0)]) ad = Inr (seqs', [], ad')"
        by (simp only: for_sequences_Cons if_False option.case split: sum.splits) auto
      from for_sequences_mono [OF r] show ?thesis
        by simp
    qed
  qed
qed

lemma Sequence_last_add: "Sequence_last (Sequence_add s p) = Some p"
  by (simp add: Sequence_last_def Sequence_add_def)

lemma not_extends_last: "\<not> extends_at i s \<Longrightarrow> \<exists>lp. Sequence_last s = Some lp \<and> parts s \<noteq> []"
  by (auto simp: extends_at_def Sequence_last_def split: option.splits if_splits)

lemma Sequence_clone_Some:
  assumes "Sequence_last s = Some lp"
  shows "Sequence_clone s i lp
           = Inr (Sequence_add (fold (\<lambda>p c. Sequence_add c p) (butlast (parts s)) new_Sequence)
                    \<lparr>start_p = start_p lp,
                     end_p = start_p lp + length (take (i - start_p lp) (substr lp)),
                     length_p = length (take (i - start_p lp) (substr lp)),
                     substr = take (i - start_p lp) (substr lp)\<rparr>)"
proof -
  from assms have ne: "parts s \<noteq> []" and l: "last (parts s) = lp"
    by (auto simp: Sequence_last_def split: if_splits)
  from ne obtain ps where ps: "parts s = ps @ [lp]"
    using l by (metis append_butlast_last_id)
  then show ?thesis
    by (simp add: Sequence_clone_def Sequence_length_def Let_def butlast_conv_take)
qed


lemma for_sequences_total:
  "\<exists>r. for_sequences i match char seqs seqs_done ov ad = Inr r"
proof (induction seqs arbitrary: seqs_done ov ad)
  case Nil
  show ?case by simp
next
  case (Cons s rest)
  show ?case
  proof (cases "extends_at i s")
    case True
    with Cons.IH show ?thesis by (simp only: for_sequences_Cons if_True)
  next
    case False
    from not_extends_last [OF False] obtain lp where lp: "Sequence_last s = Some lp" by auto
    show ?thesis
    proof (cases match)
      case None
      with False Cons.IH show ?thesis by (simp only: for_sequences_Cons if_False option.case)
    next
      case (Some m0)
      with False Cons.IH show ?thesis
        by (simp only: for_sequences_Cons if_False option.case lp option.sel
              Sequence_clone_Some [OF lp] sum.case)
    qed
  qed
qed

lemma inSequences_append: "inSequences c xs \<Longrightarrow> inSequences c (xs @ ys)"
  by (induction xs) (auto split: if_splits)

lemma inSequences_snoc_self_or: "inSequences c xs \<Longrightarrow> inSequences c (xs @ [y])"
  by (rule inSequences_append)

lemma push_clones_prefix: "\<exists>ys. push_clones cs seqs = seqs @ ys"
  by (induction cs arbitrary: seqs) (auto, metis append.assoc)


lemma parts_fold_add: "parts (fold (\<lambda>p c. Sequence_add c p) ps c0) = parts c0 @ ps"
  by (induction ps arbitrary: c0) (simp_all add: Sequence_add_def)


lemma for_sequences_result:
  "for_sequences i match char seqs seqs_done ov ad = Inr (seqs', ov', ad')
     \<Longrightarrow> seqs' = seqs_done
                 @ map (\<lambda>s. if extends_at i s then Sequence_add s (added_part i match char) else s) seqs
       \<and> set ov' \<subseteq> set ov \<union> (case match of None \<Rightarrow> {}
                                | Some m0 \<Rightarrow> clone_with i m0 ` {s \<in> set seqs. \<not> extends_at i s})"
proof (induction seqs arbitrary: seqs_done ov ad)
  case Nil
  then show ?case by simp
next
  case (Cons s rest)
  show ?case
  proof (cases "extends_at i s")
    case True
    with Cons.prems have "for_sequences i match char rest
        (seqs_done @ [Sequence_add s (added_part i match char)]) ov
        (set_add (added_kind match char) ad) = Inr (seqs', ov', ad')"
      by (simp only: for_sequences_Cons if_True)
    from Cons.IH [OF this] True show ?thesis
      by (auto split: option.splits)
  next
    case False
    show ?thesis
    proof (cases match)
      case None
      with False Cons.prems have "for_sequences i match char rest (seqs_done @ [s]) ov
          (set_add Not_adding ad) = Inr (seqs', ov', ad')"
        by (simp only: for_sequences_Cons if_False option.case)
      from Cons.IH [OF this] False None show ?thesis by simp
    next
      case (Some m0)
      with False Cons.prems obtain clone where
        c: "Sequence_clone s i (the (Sequence_last s)) = Inr clone" and
        r: "for_sequences i match char rest (seqs_done @ [s])
             (ov @ [Sequence_add clone (match_part i m0)]) ad = Inr (seqs', ov', ad')"
        by (simp only: for_sequences_Cons if_False option.case split: sum.splits) auto
      from c have cw: "Sequence_add clone (match_part i m0) = clone_with i m0 s"
        by (simp add: clone_with_def)
      from Cons.IH [OF r] Some have
        a: "seqs' = (seqs_done @ [s])
                     @ map (\<lambda>s. if extends_at i s then Sequence_add s (added_part i match char)
                                 else s) rest"
        and b: "set ov' \<subseteq> set (ov @ [clone_with i m0 s])
                            \<union> clone_with i m0 ` {x \<in> set rest. \<not> extends_at i x}"
        by (simp_all add: cw)
      from False have "set (ov @ [clone_with i m0 s])
                         \<union> clone_with i m0 ` {x \<in> set rest. \<not> extends_at i x}
                       \<subseteq> set ov \<union> clone_with i m0 ` {x \<in> set (s # rest). \<not> extends_at i x}"
        by auto
      with b have "set ov' \<subseteq> set ov \<union> clone_with i m0 ` {x \<in> set (s # rest). \<not> extends_at i x}"
        by (rule subset_trans)
      with a False Some show ?thesis by simp
    qed
  qed
qed

lemma parts_Sequence_add: "parts (Sequence_add s p) = parts s @ [p]"
  by (simp add: Sequence_add_def)



lemma parts_clone_with:
  assumes "Sequence_last s = Some lp"
  shows "parts (clone_with i m0 s)
           = butlast (parts s)
             @ [\<lparr>start_p = start_p lp,
                 end_p = start_p lp + length (take (i - start_p lp) (substr lp)),
                 length_p = length (take (i - start_p lp) (substr lp)),
                 substr = take (i - start_p lp) (substr lp)\<rparr>,
                match_part i m0]"
  by (simp add: clone_with_def assms Sequence_clone_Some [OF assms] parts_Sequence_add
        parts_fold_add new_Sequence_def)


lemma push_clones_set: "set (push_clones cs seqs) \<subseteq> set seqs \<union> set cs"
proof (induction cs arbitrary: seqs)
  case Nil
  show ?case by simp
next
  case (Cons c cs)
  from Cons.IH [of seqs] Cons.IH [of "seqs @ [c]"] show ?case
    by auto
qed


lemma getPattern_loop_append:
  "getPattern_loop H st str (xs @ ys) acc
     = (case getPattern_loop H st str xs acc of
          Inl e \<Rightarrow> Inl e
        | Inr acc' \<Rightarrow> getPattern_loop H st str ys acc')"
  by (induction xs arbitrary: acc) (auto split: sum.splits)





subsection \<open>The turn that compacts the live sequences\<close>

lemma substrs_Sequence_add: "substrs (Sequence_add s p) = substrs s @ [substr p]"
  by (simp add: Sequence_add_def)

lemma substrs_fold_add:
  "substrs (fold (\<lambda>p c. Sequence_add c p) ps c0) = substrs c0 @ map substr ps"
  by (induction ps arbitrary: c0) (simp_all add: Sequence_add_def)

lemma substrs_clone_with:
  assumes "\<not> extends_at i s"
  shows "substrs (clone_with i m0 s) = map substr (parts (clone_with i m0 s))"
proof -
  from not_extends_last [OF assms] obtain lp where lp: "Sequence_last s = Some lp"
    by auto
  show ?thesis
    by (simp add: clone_with_def lp Sequence_clone_Some [OF lp] substrs_Sequence_add
          parts_Sequence_add substrs_fold_add parts_fold_add new_Sequence_def)
qed

lemma getPattern_step_substrs:
  assumes ok: "substrs_ok seqs"
    and step: "getPattern_step H st str i (pattern, seqs) = Inr (pattern', seqs')"
  shows "substrs_ok seqs'"
proof -
  let ?match = "match_at st str i" and ?char = "take 1 (drop i str)"
  from step obtain seqs1 ov1 ad1 where
    f: "for_sequences i ?match ?char seqs [] [] [] = Inr (seqs1, ov1, ad1)"
    by (auto simp: getPattern_step_def Let_def split: sum.splits)
  from for_sequences_result [OF f] have
    s1: "seqs1 = map (\<lambda>s. if extends_at i s then Sequence_add s (added_part i ?match ?char) else s) seqs"
    and o1: "set ov1 \<subseteq> (case ?match of None \<Rightarrow> {}
                          | Some m0 \<Rightarrow> clone_with i m0 ` {s \<in> set seqs. \<not> extends_at i s})"
    by simp_all
  have ok1: "substrs_ok seqs1"
    using ok by (auto simp: substrs_ok_def s1 parts_Sequence_add substrs_Sequence_add)
  have oko: "substrs_ok ov1"
    unfolding substrs_ok_def
  proof
    fix c assume "c \<in> set ov1"
    with o1 obtain m0 s where "c = clone_with i m0 s" "\<not> extends_at i s"
      by (auto split: option.splits)
    then show "substrs c = map substr (parts c)"
      by (simp add: substrs_clone_with)
  qed
  show ?thesis
  proof (cases "length ov1 > 0")
    case True
    with step f have "seqs' = push_clones (sort_key Sequence_length ov1) seqs1"
      by (simp add: getPattern_step_def Let_def)
    with push_clones_set [of "sort_key Sequence_length ov1" seqs1] ok1 oko
    show ?thesis
      by (auto simp: substrs_ok_def)
  next
    case False
    show ?thesis
    proof (cases "i > 0 \<and> length ad1 = 1 \<and> Not_adding \<notin> set ad1")
      case c: True
      with False step f obtain s0 rest lp where
        "seqs1 = s0 # rest" "Sequence_last s0 = Some lp" "seqs' = [Sequence_add new_Sequence lp]"
        by (auto simp: getPattern_step_def Let_def split: list.splits option.splits)
      then show ?thesis
        by (simp add: substrs_ok_def parts_Sequence_add substrs_Sequence_add new_Sequence_def)
    next
      case c: False
      with False step f have "seqs' = seqs1"
        by (auto simp: getPattern_step_def Let_def)
      with ok1 show ?thesis by simp
    qed
  qed
qed

lemma getPattern_loop_substrs:
  "getPattern_loop H st str [0..<n] (p0, [new_Sequence]) = Inr (pattern, seqs)
     \<Longrightarrow> substrs_ok seqs"
proof (induction n arbitrary: pattern seqs)
  case 0
  then show ?case by (auto simp: substrs_ok_def new_Sequence_def)
next
  case (Suc n)
  from Suc.prems(1) obtain p1 seqs1 where
    l: "getPattern_loop H st str [0..<n] (p0, [new_Sequence]) = Inr (p1, seqs1)" and
    s: "getPattern_step H st str n (p1, seqs1) = Inr (pattern, seqs)"
    by (auto simp: getPattern_loop_append split: sum.splits)
  from getPattern_step_substrs [OF Suc.IH [OF l] s] show ?case .
qed

lemma sequencesToPattern_extended:
  assumes "substrs_ok sequences"
  shows "sequencesToPattern H m (map (\<lambda>s. Sequence_add s np) sequences) False
           = arrayToPattern H
               (map (\<lambda>s. sequencePattern H
                            (map (\<lambda>p. substringsToPattern H m (substr p) 1) (parts s)))
                    sequences)"
proof -
  have "\<And>s. s \<in> set sequences \<Longrightarrow>
          take (Sequence_length (Sequence_add s np) - 1) (substrs (Sequence_add s np))
            = map substr (parts s)"
    using assms
    by (simp add: substrs_ok_def Sequence_length_def parts_Sequence_add substrs_Sequence_add)
  then show ?thesis
    by (simp add: sequencesToPattern_def Let_def comp_def cong: map_cong)
qed

text \<open>
  Claim C7: at a position \<open>i > 0\<close> of the scan where the set of added types has exactly one
  member, which is not \<open>not-adding\<close>, and no clone was queued, every live sequence was
  extended by the same Part. What the turn appends to the output pattern is the
  alternation (\<open>arrayToPattern\<close>), over the live sequences, of the concatenation
  (\<open>sequencePattern\<close>) of the patterns that \<open>substringsToPattern\<close> gives for the parts the
  sequence had before the turn, that is for all its parts except the added one; and the
  live set becomes one fresh sequence that holds the added Part only.
\<close>

theorem getPattern_step_compaction:
  assumes scan: "getPattern_loop H st str [0..<i] ([], [new_Sequence]) = Inr (pattern, sequences)"
    and "0 < i"
    and "for_sequences i (match_at st str i) (take 1 (drop i str)) sequences [] [] []
           = Inr (sequences', overlapping, added_types)"
    and "length added_types = 1" and "Not_adding \<notin> set added_types" and "overlapping = []"
  shows "sequences \<noteq> []
         \<and> (\<forall>s \<in> set sequences. extends_at i s)
         \<and> sequences' = map (\<lambda>s. Sequence_add s (added_part i (match_at st str i) (take 1 (drop i str))))
                          sequences
         \<and> getPattern_step H st str i (pattern, sequences)
             = Inr (pattern
                      @ arrayToPattern H
                          (map (\<lambda>s. sequencePattern H
                                       (map (\<lambda>p. substringsToPattern H (unicode_map st) (substr p) 1)
                                            (parts s)))
                               sequences),
                    [Sequence_add new_Sequence
                       (added_part i (match_at st str i) (take 1 (drop i str)))])"
proof -
  let ?np = "added_part i (match_at st str i) (take 1 (drop i str))"
  from assms(3,6) have f: "for_sequences i (match_at st str i) (take 1 (drop i str)) sequences [] [] []
           = Inr (sequences', [], added_types)"
    by simp
  from for_sequences_all_extended [OF f assms(5)]
  have e: "\<forall>s \<in> set sequences. extends_at i s"
    and m: "sequences' = map (\<lambda>s. Sequence_add s ?np) sequences"
    and n: "sequences = [] \<longrightarrow> added_types = []"
    by simp_all
  from n assms(4) have ne: "sequences \<noteq> []"
    by auto
  then obtain s0 rest where sr: "sequences = s0 # rest"
    by (cases sequences) auto
  with m have m': "sequences' = Sequence_add s0 ?np # map (\<lambda>s. Sequence_add s ?np) rest"
    by simp
  have "getPattern_step H st str i (pattern, sequences)
             = Inr (pattern @ sequencesToPattern H (unicode_map st) sequences' False,
                    [Sequence_add new_Sequence ?np])"
    using assms(2,4,5) f
    by (simp add: getPattern_step_def Let_def m' Sequence_last_add)
  also have "sequencesToPattern H (unicode_map st) sequences' False
               = arrayToPattern H
                   (map (\<lambda>s. sequencePattern H
                                (map (\<lambda>p. substringsToPattern H (unicode_map st) (substr p) 1)
                                     (parts s)))
                        sequences)"
    unfolding m by (rule sequencesToPattern_extended [OF getPattern_loop_substrs [OF scan]])
  finally show ?thesis
    using ne e m by simp
qed

text \<open>
  With the table of U+FB00 and the folded input \<open>ffx\<close>: the scan reaches position 2 with the
  one live sequence \<open>[ff]\<close>, which is extended by the character \<open>x\<close>; the fragment of \<open>ff\<close>
  is appended to the output pattern, and the live set restarts from \<open>[x]\<close>.
\<close>

theorem getPattern_step_compaction_witness:
  "getPattern_loop spec_helpers example_state (ustr ''ffx'') [0..<2] ([], [new_Sequence])
     = Inr ([], [Sequence_add new_Sequence (match_part 0 (ustr ''ff''))])
   \<and> for_sequences 2 (match_at example_state (ustr ''ffx'') 2) (take 1 (drop 2 (ustr ''ffx'')))
       [Sequence_add new_Sequence (match_part 0 (ustr ''ff''))] [] [] []
     = Inr ([Sequence_add (Sequence_add new_Sequence (match_part 0 (ustr ''ff'')))
               (char_part 2 (ustr ''x''))],
            [], [Added_char (ustr ''x'')])
   \<and> getPattern_step spec_helpers example_state (ustr ''ffx'') 2
        ([], [Sequence_add new_Sequence (match_part 0 (ustr ''ff''))])
       = Inr (ustr ''(?:ff|'' @ [0xFB00] @ ustr '')'',
              [Sequence_add new_Sequence (char_part 2 (ustr ''x''))])"
proof -
  let ?s0 = "Sequence_add new_Sequence (match_part 0 (ustr ''ff''))"
  let ?s1 = "Sequence_add ?s0 (char_part 2 (ustr ''x''))"
  have scan: "getPattern_loop spec_helpers example_state (ustr ''ffx'') [0..<2] ([], [new_Sequence])
                = Inr ([], [?s0])"
    by code_simp
  have f: "for_sequences 2 (match_at example_state (ustr ''ffx'') 2)
             (take 1 (drop 2 (ustr ''ffx''))) [?s0] [] [] []
           = Inr ([?s1], [], [Added_char (ustr ''x'')])"
    by code_simp
  have a: "added_part 2 (match_at example_state (ustr ''ffx'') 2) (take 1 (drop 2 (ustr ''ffx'')))
           = char_part 2 (ustr ''x'')"
    by code_simp
  have e: "arrayToPattern spec_helpers
             (map (\<lambda>s. sequencePattern spec_helpers
                          (map (\<lambda>p. substringsToPattern spec_helpers (unicode_map example_state)
                                      (substr p) 1)
                               (parts s)))
                  [?s0])
           = ustr ''(?:ff|'' @ [0xFB00] @ ustr '')''"
    by code_simp
  note t = getPattern_step_compaction [OF scan _ f]
  have r: "getPattern_step spec_helpers example_state (ustr ''ffx'') 2 ([], [?s0])
          = Inr ([] @ arrayToPattern spec_helpers
             (map (\<lambda>s. sequencePattern spec_helpers
                          (map (\<lambda>p. substringsToPattern spec_helpers (unicode_map example_state)
                                      (substr p) 1)
                               (parts s)))
                  [?s0]),
                 [Sequence_add new_Sequence
                    (added_part 2 (match_at example_state (ustr ''ffx'') 2)
                       (take 1 (drop 2 (ustr ''ffx''))))])"
    using t by simp
  have "getPattern_step spec_helpers example_state (ustr ''ffx'') 2 ([], [?s0])
          = Inr (ustr ''(?:ff|'' @ [0xFB00] @ ustr '')'',
                 [Sequence_add new_Sequence (char_part 2 (ustr ''x''))])"
    using r unfolding a e by simp
  with scan f show ?thesis by simp
qed

section \<open>The map builder: what every fragment matches\<close>

lemma addMatching_Inr:
  assumes "addMatching P H sets k x = Inr sets'"
  shows "(fragment_matches P (setToPattern H (variants sets k)) x \<and> sets' = sets)
         \<or> (\<not> fragment_matches P (setToPattern H (variants sets k)) x
            \<and> sets' = AList.update k (set_add (escape_regex H x) (variants sets k)) sets)"
  using assms
  by (auto simp: addMatching_def fragment_matches_def variants_def Let_def
        split: option.splits if_splits)

lemma contract_lit:
  "regex_contract P H \<Longrightarrow> escaped_variants H S \<Longrightarrow> x \<noteq> [] \<Longrightarrow> escape_regex H x \<in> set S
     \<Longrightarrow> fragment_matches P (setToPattern H S) x"
  by (simp add: regex_contract_def)

lemma contract_mono:
  "regex_contract P H \<Longrightarrow> escaped_variants H S \<Longrightarrow> y \<noteq> [] \<Longrightarrow> x \<noteq> []
     \<Longrightarrow> fragment_matches P (setToPattern H S) x
     \<Longrightarrow> fragment_matches P (setToPattern H (S @ [escape_regex H y])) x"
  by (simp add: regex_contract_def)

lemma escaped_variants_Nil: "escaped_variants H []"
  by (simp add: escaped_variants_def)

lemma escaped_variants_snoc:
  "escaped_variants H S \<Longrightarrow> x \<noteq> [] \<Longrightarrow> escaped_variants H (S @ [escape_regex H x])"
  by (auto simp: escaped_variants_def)

lemma variants_escaped:
  "\<forall>k S. map_of sets k = Some S \<longrightarrow> S \<noteq> [] \<and> escaped_variants H S
     \<Longrightarrow> escaped_variants H (variants sets k)"
  by (auto simp: variants_def escaped_variants_Nil split: option.splits)

text \<open>One call of \<open>addMatching\<close>, under the contract.\<close>

lemma addMatching_step:
  assumes c: "regex_contract P H"
    and a: "addMatching P H sets k x = Inr sets'"
    and x: "x \<noteq> []"
    and e: "\<forall>k S. map_of sets k = Some S \<longrightarrow> S \<noteq> [] \<and> escaped_variants H S"
  shows "fragment_matches P (setToPattern H (variants sets' k)) x
    \<and> (\<forall>z k'. z \<noteq> [] \<longrightarrow> fragment_matches P (setToPattern H (variants sets k')) z
          \<longrightarrow> fragment_matches P (setToPattern H (variants sets' k')) z)
    \<and> (\<forall>k' S'. map_of sets' k' = Some S' \<longrightarrow>
          S' \<noteq> [] \<and> escaped_variants H S'
          \<and> ((\<exists>S. map_of sets k' = Some S \<and> hd S' = hd S)
             \<or> (k' = k \<and> map_of sets k = None \<and> S' = [escape_regex H x])))
    \<and> (distinct (map fst sets) \<longrightarrow> distinct (map fst sets'))"
proof -
  let ?cur = "variants sets k"
  have ec: "escaped_variants H ?cur"
    using e by (rule variants_escaped)
  from addMatching_Inr [OF a] show ?thesis
  proof
    assume "fragment_matches P (setToPattern H ?cur) x \<and> sets' = sets"
    with e show ?thesis by auto
  next
    assume b: "\<not> fragment_matches P (setToPattern H ?cur) x
               \<and> sets' = AList.update k (set_add (escape_regex H x) ?cur) sets"
    have notin: "escape_regex H x \<notin> set ?cur"
      using b contract_lit [OF c ec x] by blast
    then have sa: "set_add (escape_regex H x) ?cur = ?cur @ [escape_regex H x]"
      by (simp add: set_add_def)
    with b have m: "map_of sets' = (map_of sets)(k \<mapsto> ?cur @ [escape_regex H x])"
      by (simp add: update_conv')
    then have vk: "variants sets' k = ?cur @ [escape_regex H x]"
      and vo: "\<And>k'. k' \<noteq> k \<Longrightarrow> variants sets' k' = variants sets k'"
      by (simp_all add: variants_def)
    have en: "escaped_variants H (?cur @ [escape_regex H x])"
      using ec x by (rule escaped_variants_snoc)
    have 1: "fragment_matches P (setToPattern H (variants sets' k)) x"
      unfolding vk using c en x by (rule contract_lit) simp
    have 2: "\<forall>z k'. z \<noteq> [] \<longrightarrow> fragment_matches P (setToPattern H (variants sets k')) z
          \<longrightarrow> fragment_matches P (setToPattern H (variants sets' k')) z"
    proof (intro allI impI)
      fix z k' assume z: "z \<noteq> []"
        and f: "fragment_matches P (setToPattern H (variants sets k')) z"
      show "fragment_matches P (setToPattern H (variants sets' k')) z"
      proof (cases "k' = k")
        case True
        with f contract_mono [OF c ec x z] show ?thesis by (simp add: vk)
      next
        case False
        with f vo show ?thesis by simp
      qed
    qed
    have 3: "\<forall>k' S'. map_of sets' k' = Some S' \<longrightarrow>
          S' \<noteq> [] \<and> escaped_variants H S'
          \<and> ((\<exists>S. map_of sets k' = Some S \<and> hd S' = hd S)
             \<or> (k' = k \<and> map_of sets k = None \<and> S' = [escape_regex H x]))"
    proof (intro allI impI)
      fix k' S' assume s': "map_of sets' k' = Some S'"
      show "S' \<noteq> [] \<and> escaped_variants H S'
          \<and> ((\<exists>S. map_of sets k' = Some S \<and> hd S' = hd S)
             \<or> (k' = k \<and> map_of sets k = None \<and> S' = [escape_regex H x]))"
      proof (cases "k' = k")
        case True
        with s' m have S': "S' = ?cur @ [escape_regex H x]" by simp
        show ?thesis
        proof (cases "map_of sets k")
          case None
          with S' True en show ?thesis by (simp add: variants_def)
        next
          case (Some S)
          with e have "S \<noteq> []" by simp
          with Some S' True en show ?thesis by (simp add: variants_def)
        qed
      next
        case False
        with s' m e show ?thesis by simp
      qed
    qed
    have 4: "distinct (map fst sets) \<longrightarrow> distinct (map fst sets')"
      using b by (simp add: distinct_update)
    from 1 2 3 4 show ?thesis by blast
  qed
qed

lemma sets_ok_escaped:
  "sets_ok P H sets \<Longrightarrow> \<forall>k S. map_of sets k = Some S \<longrightarrow> S \<noteq> [] \<and> escaped_variants H S"
  by (simp add: sets_ok_def)

lemma generateSets_loop_inv:
  assumes c: "regex_contract P H"
  shows "generateSets_loop P H vs sets = Inr sets'
     \<Longrightarrow> \<forall>v \<in> set vs \<union> D. folded v \<noteq> [] \<and> composed v \<noteq> []
     \<Longrightarrow> sets_ok P H sets
     \<Longrightarrow> \<forall>v \<in> D. variants_match P H sets v
     \<Longrightarrow> distinct (map fst sets)
     \<Longrightarrow> sets_ok P H sets' \<and> (\<forall>v \<in> set vs \<union> D. variants_match P H sets' v)
         \<and> distinct (map fst sets')"
proof (induction vs arbitrary: sets D)
  case Nil
  then show ?case by simp
next
  case (Cons v vs)
  let ?k = "folded v"
  from Cons.prems(1) obtain s1 s2 where
    a1: "addMatching P H sets ?k ?k = Inr s1" and
    a2: "addMatching P H s1 ?k (composed v) = Inr s2" and
    r: "generateSets_loop P H vs s2 = Inr sets'"
    by (auto split: sum.splits)
  from Cons.prems(2) have kne: "?k \<noteq> []" and cne: "composed v \<noteq> []"
    by simp_all
  note st1 = addMatching_step [OF c a1 kne sets_ok_escaped [OF Cons.prems(3)]]
  from st1 have f1: "fragment_matches P (setToPattern H (variants s1 ?k)) ?k"
    by blast
  from st1 have m1: "\<And>z k'. z \<noteq> [] \<Longrightarrow> fragment_matches P (setToPattern H (variants sets k')) z
          \<Longrightarrow> fragment_matches P (setToPattern H (variants s1 k')) z"
    by blast
  from st1 have p1: "\<And>k' S'. map_of s1 k' = Some S' \<Longrightarrow>
          S' \<noteq> [] \<and> escaped_variants H S'
          \<and> ((\<exists>S. map_of sets k' = Some S \<and> hd S' = hd S)
             \<or> (k' = ?k \<and> map_of sets ?k = None \<and> S' = [escape_regex H ?k]))"
    by blast
  from st1 Cons.prems(5) have d1: "distinct (map fst s1)"
    by blast
  have ok1: "sets_ok P H s1"
    unfolding sets_ok_def
  proof (intro allI impI)
    fix k' S' assume "map_of s1 k' = Some S'"
    from p1 [OF this] have ne: "S' \<noteq> [] \<and> escaped_variants H S'"
      and cs: "(\<exists>S. map_of sets k' = Some S \<and> hd S' = hd S)
             \<or> (k' = ?k \<and> map_of sets ?k = None \<and> S' = [escape_regex H ?k])"
      by simp_all
    from cs have "hd S' = escape_regex H k' \<or> fragment_matches P (setToPattern H []) k'"
    proof
      assume "\<exists>S. map_of sets k' = Some S \<and> hd S' = hd S"
      then obtain S where "map_of sets k' = Some S" "hd S' = hd S" by blast
      with Cons.prems(3) show ?thesis unfolding sets_ok_def by metis
    next
      assume "k' = ?k \<and> map_of sets ?k = None \<and> S' = [escape_regex H ?k]"
      then show ?thesis by simp
    qed
    with ne show "S' \<noteq> [] \<and> escaped_variants H S'
          \<and> (hd S' = escape_regex H k' \<or> fragment_matches P (setToPattern H []) k')"
      by simp
  qed
  note st2 = addMatching_step [OF c a2 cne sets_ok_escaped [OF ok1]]
  from st2 have f2: "fragment_matches P (setToPattern H (variants s2 ?k)) (composed v)"
    by blast
  from st2 have m2: "\<And>z k'. z \<noteq> [] \<Longrightarrow> fragment_matches P (setToPattern H (variants s1 k')) z
          \<Longrightarrow> fragment_matches P (setToPattern H (variants s2 k')) z"
    by blast
  from st2 have p2: "\<And>k' S'. map_of s2 k' = Some S' \<Longrightarrow>
          S' \<noteq> [] \<and> escaped_variants H S'
          \<and> ((\<exists>S. map_of s1 k' = Some S \<and> hd S' = hd S)
             \<or> (k' = ?k \<and> map_of s1 ?k = None \<and> S' = [escape_regex H (composed v)]))"
    by blast
  from st2 d1 have d2: "distinct (map fst s2)"
    by blast
  have ok2: "sets_ok P H s2"
    unfolding sets_ok_def
  proof (intro allI impI)
    fix k' S' assume "map_of s2 k' = Some S'"
    from p2 [OF this] have ne: "S' \<noteq> [] \<and> escaped_variants H S'"
      and cs: "(\<exists>S. map_of s1 k' = Some S \<and> hd S' = hd S)
             \<or> (k' = ?k \<and> map_of s1 ?k = None \<and> S' = [escape_regex H (composed v)])"
      by simp_all
    from cs have "hd S' = escape_regex H k' \<or> fragment_matches P (setToPattern H []) k'"
    proof
      assume "\<exists>S. map_of s1 k' = Some S \<and> hd S' = hd S"
      then obtain S where "map_of s1 k' = Some S" "hd S' = hd S" by blast
      with ok1 show ?thesis unfolding sets_ok_def by metis
    next
      assume "k' = ?k \<and> map_of s1 ?k = None \<and> S' = [escape_regex H (composed v)]"
      with f1 show ?thesis by (simp add: variants_def)
    qed
    with ne show "S' \<noteq> [] \<and> escaped_variants H S'
          \<and> (hd S' = escape_regex H k' \<or> fragment_matches P (setToPattern H []) k')"
      by simp
  qed
  have vm: "\<forall>w \<in> insert v D. variants_match P H s2 w"
  proof
    fix w assume w: "w \<in> insert v D"
    show "variants_match P H s2 w"
    proof (cases "w = v")
      case True
      with f2 m2 [OF kne f1] show ?thesis by (simp add: variants_match_def)
    next
      case False
      with w have wD: "w \<in> D" by simp
      with Cons.prems(2) have wn: "folded w \<noteq> []" "composed w \<noteq> []" by simp_all
      from wD Cons.prems(4) have "variants_match P H sets w" by simp
      with wn m1 m2 show ?thesis by (simp add: variants_match_def)
    qed
  qed
  from Cons.prems(2) have ne': "\<forall>w \<in> set vs \<union> insert v D. folded w \<noteq> [] \<and> composed w \<noteq> []"
    by simp
  from Cons.IH [OF r ne' ok2 vm d2] show ?case
    by simp
qed

lemma generator_nonempty:
  "v \<in> set (generator P code_points) \<Longrightarrow> folded v \<noteq> [] \<and> composed v \<noteq> []"
  by (auto simp: set_generator generator_step_Some fromCharCode_def)

text \<open>
  Claim C8: \<open>generateSets\<close> calls \<open>addMatching\<close> for the folded form of every yielded
  value before it calls it for the composed character, and \<open>addMatching\<close> adds a
  candidate only if the alternation of the key's set, anchored and compiled with the flags
  \<open>iu\<close>, does not match it. So the set of every key is non-empty and begins with the
  escaped key (unless the alternation of the empty set already matches the key), and,
  where an alternation matches its escaped members and keeps matching when a member is
  added, the fragment of every key matches the key and every yielded character that folds
  to it. The map of \<open>generateMap\<close> holds these fragments.
\<close>

theorem generateSets_fragments_match:
  assumes c: "regex_contract P H"
    and build: "generateSets P H code_points = Inr sets"
  shows "distinct (map fst sets)
     \<and> (\<forall>(k, S) \<in> set sets.
          S \<noteq> []
          \<and> (hd S = escape_regex H k \<or> fragment_matches P (setToPattern H []) k)
          \<and> fragment_matches P (setToPattern H S) k
          \<and> (\<forall>v \<in> set (generator P code_points).
                folded v = k \<longrightarrow> fragment_matches P (setToPattern H S) (composed v)))
     \<and> (\<forall>st. generateMap P H code_points = Inr st \<longrightarrow>
          (\<forall>k. unicode_map st k = map_option (setToPattern H) (map_of sets k)))
     \<and> (\<forall>sets0 k x sets1. addMatching P H sets0 k x = Inr sets1 \<longrightarrow>
          (fragment_matches P (setToPattern H (variants sets0 k)) x \<and> sets1 = sets0)
          \<or> (\<not> fragment_matches P (setToPattern H (variants sets0 k)) x
             \<and> sets1 = AList.update k (set_add (escape_regex H x) (variants sets0 k)) sets0))"
proof -
  let ?vs = "generator P code_points"
  from build have run: "generateSets_loop P H ?vs [] = Inr sets"
    by (simp add: generateSets_def)
  have ne: "\<forall>v \<in> set ?vs \<union> {}. folded v \<noteq> [] \<and> composed v \<noteq> []"
    using generator_nonempty by blast
  from generateSets_loop_inv [OF c run ne, of ] have
    ok: "sets_ok P H sets" and vm: "\<forall>v \<in> set ?vs. variants_match P H sets v"
    and d: "distinct (map fst sets)"
    by (simp_all add: sets_ok_def)
  have per: "\<forall>(k, S) \<in> set sets.
          S \<noteq> []
          \<and> (hd S = escape_regex H k \<or> fragment_matches P (setToPattern H []) k)
          \<and> fragment_matches P (setToPattern H S) k
          \<and> (\<forall>v \<in> set ?vs. folded v = k \<longrightarrow> fragment_matches P (setToPattern H S) (composed v))"
  proof (clarify, intro conjI ballI impI)
    fix k S assume kS: "(k, S) \<in> set sets"
    with d have m: "map_of sets k = Some S" by simp
    then have v: "variants sets k = S" by (simp add: variants_def)
    from m ok show "S \<noteq> []"
      and "hd S = escape_regex H k \<or> fragment_matches P (setToPattern H []) k"
      by (simp_all add: sets_ok_def)
    from kS have "k \<in> fst ` set sets" by force
    with generateSets_loop_keys [OF run] obtain w where w: "w \<in> set ?vs" "folded w = k"
      by auto
    with vm v show "fragment_matches P (setToPattern H S) k"
      by (auto simp: variants_match_def)
    fix u assume "u \<in> set ?vs" "folded u = k"
    with vm v show "fragment_matches P (setToPattern H S) (composed u)"
      by (auto simp: variants_match_def)
  qed
  have mp: "\<forall>st. generateMap P H code_points = Inr st \<longrightarrow>
          (\<forall>k. unicode_map st k = map_option (setToPattern H) (map_of sets k))"
    using build
    by (auto simp: generateMap_def Let_def map_of_map split: option.splits)
  have am: "\<forall>sets0 k x sets1. addMatching P H sets0 k x = Inr sets1 \<longrightarrow>
          (fragment_matches P (setToPattern H (variants sets0 k)) x \<and> sets1 = sets0)
          \<or> (\<not> fragment_matches P (setToPattern H (variants sets0 k)) x
             \<and> sets1 = AList.update k (set_add (escape_regex H x) (variants sets0 k)) sets0)"
    using addMatching_Inr by blast
  from d per mp am show ?thesis by (intro conjI)
qed

subsection \<open>The regular-expression fragment meets the contract\<close>

lemma rx_match_lang:
  "anchor_free r \<Longrightarrow>
     (rx_match canon r at s k \<noteq> None)
       = (\<exists>u v. s = u @ v \<and> u \<in> lang canon r \<and> k (at \<and> u = []) v \<noteq> None)"
proof (induction r arbitrary: at s k)
  case (Chr c)
  show ?case
  proof (cases s)
    case Nil
    then show ?thesis by simp
  next
    case (Cons d rest)
    have "(\<exists>u v. d # rest = u @ v \<and> u \<in> lang canon (Chr c) \<and> k (at \<and> u = []) v \<noteq> None)
            = (canon c = canon d \<and> k False rest \<noteq> None)"
    proof
      assume "\<exists>u v. d # rest = u @ v \<and> u \<in> lang canon (Chr c) \<and> k (at \<and> u = []) v \<noteq> None"
      then obtain u v d' where "d # rest = u @ v" "u = [d']" "canon c = canon d'"
        "k (at \<and> u = []) v \<noteq> None"
        by auto
      then show "canon c = canon d \<and> k False rest \<noteq> None"
        by simp
    next
      assume a: "canon c = canon d \<and> k False rest \<noteq> None"
      show "\<exists>u v. d # rest = u @ v \<and> u \<in> lang canon (Chr c) \<and> k (at \<and> u = []) v \<noteq> None"
        by (rule exI [of _ "[d]"], rule exI [of _ rest]) (use a in simp)
    qed
    with Cons show ?thesis by simp
  qed
next
  case Bol
  then show ?case by simp
next
  case Eol
  then show ?case by simp
next
  case Eps
  show ?case by simp
next
  case (Seq a b)
  from Seq.prems have fa: "anchor_free a" and fb: "anchor_free b" by simp_all
  have "(rx_match canon (Seq a b) at s k \<noteq> None)
          = (rx_match canon a at s (\<lambda>at' s'. rx_match canon b at' s' k) \<noteq> None)"
    by simp
  also have "\<dots> = (\<exists>u1 v1. s = u1 @ v1 \<and> u1 \<in> lang canon a
                      \<and> rx_match canon b (at \<and> u1 = []) v1 k \<noteq> None)"
    using Seq.IH(1) [OF fa, of at s "\<lambda>at' s'. rx_match canon b at' s' k"] .
  also have "\<dots> = (\<exists>u1 v1. s = u1 @ v1 \<and> u1 \<in> lang canon a
               \<and> (\<exists>u2 v. v1 = u2 @ v \<and> u2 \<in> lang canon b
                    \<and> k ((at \<and> u1 = []) \<and> u2 = []) v \<noteq> None))"
    by (simp only: Seq.IH(2) [OF fb])
  also have "\<dots> = (\<exists>u v. s = u @ v \<and> u \<in> lang canon (Seq a b) \<and> k (at \<and> u = []) v \<noteq> None)"
  proof
    assume "\<exists>u1 v1. s = u1 @ v1 \<and> u1 \<in> lang canon a
               \<and> (\<exists>u2 v. v1 = u2 @ v \<and> u2 \<in> lang canon b
                    \<and> k ((at \<and> u1 = []) \<and> u2 = []) v \<noteq> None)"
    then obtain u1 u2 v where "s = u1 @ u2 @ v" "u1 \<in> lang canon a" "u2 \<in> lang canon b"
      "k ((at \<and> u1 = []) \<and> u2 = []) v \<noteq> None"
      by blast
    then show "\<exists>u v. s = u @ v \<and> u \<in> lang canon (Seq a b) \<and> k (at \<and> u = []) v \<noteq> None"
      by (intro exI [of _ "u1 @ u2"] exI [of _ v]) (auto simp: conj_assoc)
  next
    assume "\<exists>u v. s = u @ v \<and> u \<in> lang canon (Seq a b) \<and> k (at \<and> u = []) v \<noteq> None"
    then obtain u1 u2 v where "s = (u1 @ u2) @ v" "u1 \<in> lang canon a" "u2 \<in> lang canon b"
      "k (at \<and> u1 @ u2 = []) v \<noteq> None"
      by auto
    then show "\<exists>u1 v1. s = u1 @ v1 \<and> u1 \<in> lang canon a
               \<and> (\<exists>u2 v. v1 = u2 @ v \<and> u2 \<in> lang canon b
                    \<and> k ((at \<and> u1 = []) \<and> u2 = []) v \<noteq> None)"
      by (intro exI [of _ u1] exI [of _ "u2 @ v"] conjI exI [of _ u2] exI [of _ v])
         (auto simp: conj_assoc)
  qed
  finally show ?case .
next
  case (Alt a b)
  from Alt.prems have fa: "anchor_free a" and fb: "anchor_free b" by simp_all
  have "(rx_match canon (Alt a b) at s k \<noteq> None)
          = (rx_match canon a at s k \<noteq> None \<or> rx_match canon b at s k \<noteq> None)"
    by (auto split: option.splits)
  then show ?case
    unfolding Alt.IH(1) [OF fa] Alt.IH(2) [OF fb] by auto
qed

lemma syntax_chars_iff:
  "c \<in> set syntax_chars \<longleftrightarrow>
     c = 0x24 \<or> c = 0x28 \<or> c = 0x29 \<or> c = 0x2A \<or> c = 0x2B \<or> c = 0x2E \<or> c = 0x3F
     \<or> c = 0x5B \<or> c = 0x5D \<or> c = 0x5E \<or> c = 0x7B \<or> c = 0x7C \<or> c = 0x7D \<or> c = 0x5C"
  by (auto simp: syntax_chars_def ustr_def)

lemma rx_parse_plain:
  "c \<notin> set syntax_chars \<Longrightarrow>
     rx_parse (c # cs) f stack = rx_parse cs (fst f, Seq (snd f) (Chr c)) stack"
  by (auto simp: syntax_chars_iff)

lemma rx_parse_escaped:
  "c \<in> set syntax_chars \<Longrightarrow>
     rx_parse (0x5C # c # cs) f stack = rx_parse cs (fst f, Seq (snd f) (Chr c)) stack"
  by simp

lemma rx_parse_bar:
  "rx_parse (0x7C # cs) f stack = rx_parse cs (Some (close_frame f), Eps) stack"
  by simp

lemma rx_parse_close:
  "rx_parse (0x29 # cs) f (g # stack) = rx_parse cs (fst g, Seq (snd g) (close_frame f)) stack"
  by simp

lemma rx_parse_open:
  "rx_parse (0x28 # 0x3F # 0x3A # cs) f stack = rx_parse cs (None, Eps) (f # stack)"
  by simp

lemma rx_parse_bol:
  "rx_parse (0x5E # cs) f stack = rx_parse cs (fst f, Seq (snd f) Bol) stack"
  by simp

lemma rx_parse_eol:
  "rx_parse (0x24 # cs) f stack = rx_parse cs (fst f, Seq (snd f) Eol) stack"
  by simp

lemma spec_escape_regex_Cons:
  "spec_escape_regex (c # y)
     = (if c \<in> set syntax_chars then [0x5C, c] else [c]) @ spec_escape_regex y"
  by (simp add: spec_escape_regex_def)

lemma spec_escape_regex_Nil: "spec_escape_regex [] = []"
  by (simp add: spec_escape_regex_def)

lemma rx_parse_escape:
  "rx_parse (spec_escape_regex y @ rest) (a, cur) stack = rx_parse rest (a, lit_rx y cur) stack"
proof (induction y arbitrary: cur)
  case Nil
  show ?case by (simp add: spec_escape_regex_Nil lit_rx_def)
next
  case (Cons c y)
  show ?case
  proof (cases "c \<in> set syntax_chars")
    case True
    then have "rx_parse (spec_escape_regex (c # y) @ rest) (a, cur) stack
                 = rx_parse (spec_escape_regex y @ rest) (a, Seq cur (Chr c)) stack"
      by (simp only: spec_escape_regex_Cons if_True append.simps rx_parse_escaped [OF True]
            fst_conv snd_conv)
    then show ?thesis by (simp add: Cons.IH lit_rx_def)
  next
    case False
    then have "rx_parse (spec_escape_regex (c # y) @ rest) (a, cur) stack
                 = rx_parse (spec_escape_regex y @ rest) (a, Seq cur (Chr c)) stack"
      by (simp only: spec_escape_regex_Cons if_False append.simps rx_parse_plain [OF False]
            fst_conv snd_conv)
    then show ?thesis by (simp add: Cons.IH lit_rx_def)
  qed
qed

lemma join_bar_Cons2: "join_bar (x # y # xs) = x @ 0x7C # join_bar (y # xs)"
  by simp

lemma rx_parse_alternatives:
  "rx_parse (join_bar (map spec_escape_regex (y # ys)) @ 0x29 # rest) (a, Eps) (g # stack)
     = rx_parse rest (fst g, Seq (snd g) (alts_rx (close_frame (a, lit_rx y Eps)) ys)) stack"
proof (induction ys arbitrary: y a)
  case Nil
  show ?case
    by (simp only: list.map join_bar.simps rx_parse_escape rx_parse_close alts_rx_def foldl.simps)
next
  case (Cons y' ys)
  have "rx_parse (join_bar (map spec_escape_regex (y # y' # ys)) @ 0x29 # rest) (a, Eps) (g # stack)
        = rx_parse (join_bar (map spec_escape_regex (y' # ys)) @ 0x29 # rest)
            (Some (close_frame (a, lit_rx y Eps)), Eps) (g # stack)"
    by (simp only: list.map join_bar_Cons2 append_assoc append.simps rx_parse_escape rx_parse_bar)
  also have "\<dots> = rx_parse rest
        (fst g, Seq (snd g)
           (alts_rx (close_frame (Some (close_frame (a, lit_rx y Eps)), lit_rx y' Eps)) ys)) stack"
    by (rule Cons.IH)
  finally show ?case
    by (simp add: alts_rx_def close_frame_def)
qed

lemma lit_rx_snoc: "lit_rx (y @ [c]) cur = Seq (lit_rx y cur) (Chr c)"
  by (simp add: lit_rx_def)

lemma lit_rx_Nil: "lit_rx [] cur = cur"
  by (simp add: lit_rx_def)

lemma anchor_free_lit: "anchor_free cur \<Longrightarrow> anchor_free (lit_rx y cur)"
  by (induction y rule: rev_induct) (simp_all add: lit_rx_snoc lit_rx_Nil)

lemma lang_lit: "lang canon (lit_rx y Eps) = {s. map canon s = map canon y}"
proof (induction y rule: rev_induct)
  case Nil
  show ?case by (simp add: lit_rx_Nil)
next
  case (snoc c y)
  show ?case
  proof (rule set_eqI)
    fix s
    have "s \<in> lang canon (lit_rx (y @ [c]) Eps)
            \<longleftrightarrow> (\<exists>u d. s = u @ [d] \<and> map canon u = map canon y \<and> canon c = canon d)"
      by (auto simp: lit_rx_snoc snoc.IH)
    also have "\<dots> \<longleftrightarrow> map canon s = map canon (y @ [c])"
    proof
      assume "\<exists>u d. s = u @ [d] \<and> map canon u = map canon y \<and> canon c = canon d"
      then show "map canon s = map canon (y @ [c])" by auto
    next
      assume a: "map canon s = map canon (y @ [c])"
      then have "length s = Suc (length y)"
        by (metis length_map length_append_singleton)
      then obtain u d where s: "s = u @ [d]"
        by (metis length_Suc_conv_rev)
      with a show "\<exists>u d. s = u @ [d] \<and> map canon u = map canon y \<and> canon c = canon d"
        by auto
    qed
    finally show "s \<in> lang canon (lit_rx (y @ [c]) Eps) \<longleftrightarrow> s \<in> {s. map canon s = map canon (y @ [c])}"
      by simp
  qed
qed

lemma anchor_free_alts:
  "anchor_free A \<Longrightarrow> anchor_free (alts_rx A ys)"
  by (induction ys arbitrary: A) (simp_all add: alts_rx_def anchor_free_lit)

lemma lang_alts:
  "lang canon (alts_rx A ys) = lang canon A \<union> (\<Union>y \<in> set ys. lang canon (lit_rx y Eps))"
  by (induction ys arbitrary: A) (auto simp: alts_rx_def)

text \<open>A literal after any prefix matches as the prefix followed by the literal.\<close>

lemma rx_match_lit:
  "rx_match canon (lit_rx y cur) at s k
     = rx_match canon cur at s (\<lambda>at' s'. rx_match canon (lit_rx y Eps) at' s' k)"
  by (induction y arbitrary: k rule: rev_induct) (simp_all add: lit_rx_snoc lit_rx_Nil)

lemma rx_match_lit_bol:
  "rx_match canon (lit_rx y (Seq Eps Bol)) at s k
     = (if at then rx_match canon (lit_rx y Eps) True s k else None)"
  by (subst rx_match_lit) simp

text \<open>A pattern that begins with \<open>^\<close> matches at index 0 or nowhere.\<close>

lemma rx_search_anchored:
  assumes "\<And>s k. rx_match canon R False s k = None"
  shows "rx_search canon R (Suc i) s = None"
  by (induction s arbitrary: i) (simp_all add: assms)

lemma rx_search_0:
  assumes "\<And>s k. rx_match canon R False s k = None"
  shows "(rx_search canon R 0 s \<noteq> None) = (rx_match canon R True s (\<lambda>_ rest. Some rest) \<noteq> None)"
  using rx_search_anchored [OF assms, of 0]
  by (cases s) (auto split: option.splits)

lemma rx_match_anchored:
  "rx_match canon (Seq (Seq (Seq Eps Bol) B) Eol) at s k
     = (if at then rx_match canon B True s (\<lambda>at' s'. if s' = [] then k at' s' else None) else None)"
  by simp

lemma rx_search_anchored_lang:
  assumes "anchor_free B"
  shows "(rx_search canon (Seq (Seq (Seq Eps Bol) B) Eol) 0 s \<noteq> None) = (s \<in> lang canon B)"
proof -
  have "(rx_search canon (Seq (Seq (Seq Eps Bol) B) Eol) 0 s \<noteq> None)
          = (rx_match canon (Seq (Seq (Seq Eps Bol) B) Eol) True s (\<lambda>_ rest. Some rest) \<noteq> None)"
    by (rule rx_search_0) simp
  also have "\<dots> = (rx_match canon B True s (\<lambda>at' s'. if s' = [] then Some s' else None) \<noteq> None)"
    by simp
  also have "\<dots> = (\<exists>u v. s = u @ v \<and> u \<in> lang canon B
                      \<and> (if v = [] then Some v else None) \<noteq> None)"
    by (rule rx_match_lang [OF assms])
  also have "\<dots> = (s \<in> lang canon B)"
    by auto
  finally show ?thesis .
qed

lemma spec_escape_regex_nonempty: "y \<noteq> [] \<Longrightarrow> spec_escape_regex y \<noteq> []"
  by (cases y) (simp_all add: spec_escape_regex_Cons)

lemma spec_escape_regex_eq_Nil: "(spec_escape_regex y = []) = (y = [])"
  using spec_escape_regex_nonempty [of y] by (auto simp: spec_escape_regex_Nil)

lemma spec_escape_regex_inj: "spec_escape_regex x = spec_escape_regex y \<Longrightarrow> x = y"
proof (induction x arbitrary: y)
  case Nil
  then show ?case
    using spec_escape_regex_nonempty [of y] by (auto simp: spec_escape_regex_Nil)
next
  case (Cons c x)
  then obtain d y' where y: "y = d # y'"
    using spec_escape_regex_nonempty [of "c # x"]
    by (cases y) (auto simp: spec_escape_regex_Nil)
  from Cons.prems y have "c = d \<and> spec_escape_regex x = spec_escape_regex y'"
    by (auto simp: spec_escape_regex_Cons syntax_chars_iff split: if_splits)
  with Cons.IH y show ?case by simp
qed

lemma fragment_matches_frag:
  "fragment_matches frag_platform frag x
     = (case rx_parse (0x5E # frag @ [0x24]) (None, Eps) [] of
          None \<Rightarrow> False
        | Some R \<Rightarrow> rx_search ascii_fold R 0 x \<noteq> None)"
  by (simp add: fragment_matches_def frag_platform_def frag_RegExp_def ustr_def
        split: option.splits)

lemma fragment_matches_empty: "fragment_matches frag_platform [] x = (x = [])"
proof -
  have p: "rx_parse (0x5E # [] @ [0x24]) (None, Eps) [] = Some (Seq (Seq Eps Bol) Eol)"
    by (simp add: close_frame_def)
  have "(rx_search ascii_fold (Seq (Seq Eps Bol) Eol) 0 x \<noteq> None)
          = (rx_match ascii_fold (Seq (Seq Eps Bol) Eol) True x (\<lambda>_ rest. Some rest) \<noteq> None)"
    by (rule rx_search_0) simp
  also have "\<dots> = (x = [])"
    by simp
  finally show ?thesis
    unfolding fragment_matches_frag p option.case .
qed

lemma fragment_matches_single:
  "fragment_matches frag_platform (spec_escape_regex y) x = (map ascii_fold x = map ascii_fold y)"
proof -
  let ?R = "Seq (lit_rx y (Seq Eps Bol)) Eol"
  have p: "rx_parse (0x5E # spec_escape_regex y @ [0x24]) (None, Eps) [] = Some ?R"
    by (simp only: rx_parse_bol rx_parse_escape fst_conv snd_conv rx_parse_eol rx_parse.simps(1))
       (simp add: close_frame_def)
  have a: "\<And>s k. rx_match ascii_fold ?R False s k = None"
    by (simp add: rx_match_lit_bol)
  have "(rx_search ascii_fold ?R 0 x \<noteq> None)
          = (rx_match ascii_fold ?R True x (\<lambda>_ rest. Some rest) \<noteq> None)"
    by (rule rx_search_0) (rule a)
  also have "\<dots> = (rx_match ascii_fold (lit_rx y Eps) True x
                        (\<lambda>at' s'. if s' = [] then Some s' else None) \<noteq> None)"
    by (simp add: rx_match_lit_bol)
  also have "\<dots> = (\<exists>u v. x = u @ v \<and> u \<in> lang ascii_fold (lit_rx y Eps)
                      \<and> (if v = [] then Some v else None) \<noteq> None)"
    by (rule rx_match_lang) (simp add: anchor_free_lit)
  also have "\<dots> = (x \<in> lang ascii_fold (lit_rx y Eps))"
    by auto
  also have "\<dots> = (map ascii_fold x = map ascii_fold y)"
    by (simp add: lang_lit)
  finally show ?thesis
    unfolding fragment_matches_frag p option.case .
qed

lemma fragment_matches_group:
  "fragment_matches frag_platform
     (ustr ''(?:'' @ join_bar (map spec_escape_regex (y1 # y2 # ys)) @ ustr '')'') x
     = (\<exists>y \<in> set (y1 # y2 # ys). map ascii_fold x = map ascii_fold y)"
proof -
  let ?B = "alts_rx (lit_rx y1 Eps) (y2 # ys)"
  have "rx_parse (0x5E # (ustr ''(?:'' @ join_bar (map spec_escape_regex (y1 # y2 # ys)) @ ustr '')'')
                   @ [0x24]) (None, Eps) []
          = rx_parse (join_bar (map spec_escape_regex (y1 # y2 # ys)) @ 0x29 # [0x24])
              (None, Eps) [(None, Seq Eps Bol)]"
    by (simp add: ustr_def)
  also have "\<dots> = Some (Seq (Seq (Seq Eps Bol) ?B) Eol)"
    by (simp only: rx_parse_alternatives) (simp add: close_frame_def)
  finally have p: "rx_parse (0x5E # (ustr ''(?:'' @ join_bar (map spec_escape_regex (y1 # y2 # ys))
                     @ ustr '')'') @ [0x24]) (None, Eps) []
                   = Some (Seq (Seq (Seq Eps Bol) ?B) Eol)" .
  have f: "anchor_free ?B"
    by (simp add: anchor_free_alts anchor_free_lit)
  show ?thesis
    unfolding fragment_matches_frag p option.case rx_search_anchored_lang [OF f]
    by (auto simp: lang_alts lang_lit)
qed

lemma spec_arrayToPattern_escaped:
  assumes "[] \<notin> set ys"
  shows "spec_arrayToPattern (map spec_escape_regex ys)
           = (case ys of
                [] \<Rightarrow> []
              | [y] \<Rightarrow> spec_escape_regex y
              | y1 # y2 # ys' \<Rightarrow>
                  ustr ''(?:'' @ join_bar (map spec_escape_regex ys) @ ustr '')'')"
proof -
  from assms have "filter (\<lambda>c. c \<noteq> []) (map spec_escape_regex ys) = map spec_escape_regex ys"
    by (auto simp: filter_id_conv spec_escape_regex_eq_Nil)
  then show ?thesis
    by (simp add: spec_arrayToPattern_def split: list.splits)
qed

lemma fragment_matches_alternation:
  assumes "[] \<notin> set ys"
  shows "fragment_matches frag_platform (spec_arrayToPattern (map spec_escape_regex ys)) x
           = (if ys = [] then x = [] else \<exists>y \<in> set ys. map ascii_fold x = map ascii_fold y)"
proof (cases ys)
  case Nil
  then show ?thesis
    by (simp add: spec_arrayToPattern_def fragment_matches_empty)
next
  case (Cons y1 ys1)
  show ?thesis
  proof (cases ys1)
    case Nil
    from assms have "spec_arrayToPattern (map spec_escape_regex [y1]) = spec_escape_regex y1"
      unfolding Cons Nil by (subst spec_arrayToPattern_escaped) simp_all
    then show ?thesis
      unfolding Cons Nil by (simp add: fragment_matches_single)
  next
    case c2: (Cons y2 ys2)
    from assms have "spec_arrayToPattern (map spec_escape_regex (y1 # y2 # ys2))
                       = ustr ''(?:'' @ join_bar (map spec_escape_regex (y1 # y2 # ys2)) @ ustr '')''"
      unfolding Cons c2 by (subst spec_arrayToPattern_escaped) simp_all
    then show ?thesis
      unfolding Cons c2 by (simp only: fragment_matches_group) simp
  qed
qed

lemma escaped_variants_spec:
  "escaped_variants spec_helpers S \<Longrightarrow> \<exists>ys. S = map spec_escape_regex ys \<and> [] \<notin> set ys"
proof (induction S)
  case Nil
  show ?case by simp
next
  case (Cons e S)
  from Cons.prems obtain y where y: "e = spec_escape_regex y" "y \<noteq> []"
    by (auto simp: escaped_variants_def spec_helpers_def)
  from Cons.prems have "escaped_variants spec_helpers S"
    by (simp add: escaped_variants_def)
  from Cons.IH [OF this] obtain ys where "S = map spec_escape_regex ys" "[] \<notin> set ys"
    by blast
  with y show ?case
    by (intro exI [of _ "y # ys"]) auto
qed

lemma regex_contract_frag: "regex_contract frag_platform spec_helpers"
  unfolding regex_contract_def
proof (intro conjI allI impI)
  fix S :: "ustring list" and x :: ustring
  assume e: "escaped_variants spec_helpers S" and x: "x \<noteq> []"
    and m: "escape_regex spec_helpers x \<in> set S"
  from escaped_variants_spec [OF e] obtain ys where
    ys: "S = map spec_escape_regex ys" "[] \<notin> set ys" by blast
  with m have "x \<in> set ys"
    by (auto simp: spec_helpers_def dest: spec_escape_regex_inj)
  with ys show "fragment_matches frag_platform (setToPattern spec_helpers S) x"
    by (auto simp: spec_helpers_def fragment_matches_alternation)
next
  fix S :: "ustring list" and y x :: ustring
  assume e: "escaped_variants spec_helpers S" and y: "y \<noteq> []" and x: "x \<noteq> []"
    and f: "fragment_matches frag_platform (setToPattern spec_helpers S) x"
  from escaped_variants_spec [OF e] obtain ys where
    ys: "S = map spec_escape_regex ys" "[] \<notin> set ys" by blast
  with f x have "\<exists>z \<in> set ys. map ascii_fold x = map ascii_fold z"
    by (auto simp: spec_helpers_def fragment_matches_alternation split: if_splits)
  moreover from ys y have "S @ [escape_regex spec_helpers y] = map spec_escape_regex (ys @ [y])"
    "[] \<notin> set (ys @ [y])"
    by (auto simp: spec_helpers_def)
  ultimately show "fragment_matches frag_platform
                     (setToPattern spec_helpers (S @ [escape_regex spec_helpers y])) x"
    by (simp add: spec_helpers_def fragment_matches_alternation del: map_append)
qed

text \<open>
  With the table of U+2171 and U+2172: the fragment of the key \<open>ii\<close> matches \<open>ii\<close> and
  U+2171.
\<close>

theorem generateSets_fragments_match_witness:
  "regex_contract frag_platform spec_helpers
   \<and> generateSets frag_platform spec_helpers roman_code_points
       = Inr [(ustr ''ii'', [ustr ''ii'', [0x2171]]), (ustr ''iii'', [ustr ''iii'', [0x2172]])]
   \<and> unicode_map roman_state (ustr ''ii'') = Some (ustr ''(?:ii|'' @ [0x2171] @ ustr '')'')
   \<and> fragment_matches frag_platform (ustr ''(?:ii|'' @ [0x2171] @ ustr '')'') (ustr ''ii'')
   \<and> fragment_matches frag_platform (ustr ''(?:ii|'' @ [0x2171] @ ustr '')'') [0x2171]"
proof -
  let ?sets = "[(ustr ''ii'', [ustr ''ii'', [0x2171]]), (ustr ''iii'', [ustr ''iii'', [0x2172]])]"
  let ?v = "\<lparr>folded = ustr ''ii'', composed = [0x2171], code_point = 0x2171\<rparr>"
  have b: "generateSets frag_platform spec_helpers roman_code_points = Inr ?sets"
    by code_simp
  have v: "?v \<in> set (generator frag_platform roman_code_points)"
    by code_simp
  have p: "setToPattern spec_helpers [ustr ''ii'', [0x2171]] = ustr ''(?:ii|'' @ [0x2171] @ ustr '')''"
    by code_simp
  have u: "unicode_map roman_state (ustr ''ii'') = Some (ustr ''(?:ii|'' @ [0x2171] @ ustr '')'')"
    by code_simp
  note t = generateSets_fragments_match [OF regex_contract_frag b]
  from t have "\<forall>(k, S) \<in> set ?sets.
          fragment_matches frag_platform (setToPattern spec_helpers S) k
          \<and> (\<forall>v \<in> set (generator frag_platform roman_code_points).
                folded v = k \<longrightarrow> fragment_matches frag_platform (setToPattern spec_helpers S) (composed v))"
    by blast
  then have "fragment_matches frag_platform (setToPattern spec_helpers [ustr ''ii'', [0x2171]]) (ustr ''ii'')
          \<and> (\<forall>v \<in> set (generator frag_platform roman_code_points).
                folded v = ustr ''ii'' \<longrightarrow>
                fragment_matches frag_platform (setToPattern spec_helpers [ustr ''ii'', [0x2171]])
                  (composed v))"
    by simp
  with v have "fragment_matches frag_platform (ustr ''(?:ii|'' @ [0x2171] @ ustr '')'') (ustr ''ii'')
     \<and> fragment_matches frag_platform (ustr ''(?:ii|'' @ [0x2171] @ ustr '')'') [0x2171]"
    unfolding p by fastforce
  with regex_contract_frag b u show ?thesis by simp
qed

section \<open>The matcher of multi-character keys\<close>

text \<open>What \<open>generateMap\<close> returns, and the keys that its matcher is compiled from.\<close>

lemma insort_key_map:
  "insort_key f (g x) (map g ys) = map g (insort_key (\<lambda>y. f (g y)) x ys)"
  by (induction ys) simp_all

lemma sort_key_map: "sort_key f (map g xs) = map g (sort_key (\<lambda>y. f (g y)) xs)"
  by (induction xs) (simp_all add: insort_key_map)

lemma set_for_in_keys: "set (for_in_keys obj) = fst ` set obj"
  by (auto simp: for_in_keys_def)

lemma generateMap_Inr:
  assumes "generateMap P H cps = Inr st"
  obtains sets ks re where "generateSets P H cps = Inr sets"
    and "unicode_map st = map_of (map (\<lambda>(fld, s). (fld, setToPattern H s)) sets)"
    and "set ks = {k \<in> fst ` set sets. 1 < length k}"
    and "new_RegExp P (arrayToPattern H (map (escape_regex H) ks)) ''u'' = Some re"
    and "multi_char_reg st = re"
proof -
  from assms obtain sets where s: "generateSets P H cps = Inr sets"
    by (auto simp: generateMap_def split: sum.splits)
  let ?multi = "filter (\<lambda>fld. length fld > 1) (for_in_keys sets)"
  let ?ks = "sort_key (\<lambda>y. - int (length (escape_regex H y))) ?multi"
  have e: "sort_key (\<lambda>a. - int (length a)) (map (escape_regex H) ?multi) = map (escape_regex H) ?ks"
    by (rule sort_key_map)
  from assms s have
    "(case new_RegExp P (arrayToPattern H
              (sort_key (\<lambda>a. - int (length a)) (map (escape_regex H) ?multi))) ''u'' of
        None \<Rightarrow> Inl SyntaxError
      | Some re \<Rightarrow>
          Inr \<lparr>unicode_map = map_of (map (\<lambda>(fld, s). (fld, setToPattern H s)) sets),
               multi_char_reg = re\<rparr>) = Inr st"
    by (simp add: generateMap_def Let_def)
  then obtain re where
    re: "new_RegExp P (arrayToPattern H (map (escape_regex H) ?ks)) ''u'' = Some re"
    and st: "st = \<lparr>unicode_map = map_of (map (\<lambda>(fld, s). (fld, setToPattern H s)) sets),
                   multi_char_reg = re\<rparr>"
    unfolding e by (auto split: option.splits)
  have k: "set ?ks = {k \<in> fst ` set sets. 1 < length k}"
    by (auto simp: set_for_in_keys)
  from st have u: "unicode_map st = map_of (map (\<lambda>(fld, s). (fld, setToPattern H s)) sets)"
    and m: "multi_char_reg st = re"
    by simp_all
  show thesis
    by (rule that [OF s u k re m])
qed

lemma dom_generateMap:
  assumes "generateMap P H cps = Inr st" and "generateSets P H cps = Inr sets"
  shows "dom (unicode_map st) = fst ` set sets"
proof -
  from assms(1) obtain sets' where "generateSets P H cps = Inr sets'"
    and u: "unicode_map st = map_of (map (\<lambda>(fld, s). (fld, setToPattern H s)) sets')"
    by (rule generateMap_Inr)
  with assms(2) have "sets' = sets" by simp
  with u show ?thesis
    by (force simp: dom_map_of_conv_image_fst)
qed

text \<open>The matcher of a map with a multi-character key, under the contract.\<close>

lemma generateMap_matcher:
  assumes c: "matcher_contract P H" and b: "generateMap P H cps = Inr st"
    and ne: "multi_char_keys st \<noteq> {}"
  shows "case multi_char_reg st s of
           None \<Rightarrow> \<forall>k \<in> multi_char_keys st. \<not> sublist k s
         | Some (j, m) \<Rightarrow> m \<in> multi_char_keys st \<and> prefix m (drop j s)"
proof -
  from b obtain sets ks re where s: "generateSets P H cps = Inr sets"
    and ks: "set ks = {k \<in> fst ` set sets. 1 < length k}"
    and re: "new_RegExp P (arrayToPattern H (map (escape_regex H) ks)) ''u'' = Some re"
    and m: "multi_char_reg st = re"
    by (rule generateMap_Inr)
  from ks dom_generateMap [OF b s] have k: "set ks = multi_char_keys st"
    by (simp add: multi_char_keys_def)
  with ne have "ks \<noteq> []" by auto
  moreover from k have "\<forall>k \<in> set ks. 1 < length k"
    by (simp add: multi_char_keys_def)
  ultimately obtain re' where
    "new_RegExp P (arrayToPattern H (map (escape_regex H) ks)) ''u'' = Some re'"
    and r: "\<And>s. case re' s of
                  None \<Rightarrow> \<forall>k \<in> set ks. \<not> sublist k s
                | Some (j, m) \<Rightarrow> m \<in> set ks \<and> prefix m (drop j s)"
    using c unfolding matcher_contract_def by blast
  with re have "re' = re" by simp
  with r [of s] m k show ?thesis by (auto split: option.splits)
qed

lemma generateMap_guard:
  assumes c: "matcher_contract P H" and b: "generateMap P H cps = Inr st"
    and ne: "multi_char_keys st \<noteq> {}"
  shows "multi_char_reg st s = None \<longleftrightarrow> (\<forall>k \<in> multi_char_keys st. \<not> sublist k s)"
proof
  assume "multi_char_reg st s = None"
  with generateMap_matcher [OF c b ne, of s] show "\<forall>k \<in> multi_char_keys st. \<not> sublist k s"
    by simp
next
  assume n: "\<forall>k \<in> multi_char_keys st. \<not> sublist k s"
  show "multi_char_reg st s = None"
  proof (rule ccontr)
    assume "multi_char_reg st s \<noteq> None"
    then obtain j m where jm: "multi_char_reg st s = Some (j, m)" by auto
    with generateMap_matcher [OF c b ne, of s] have m: "m \<in> multi_char_keys st"
      and p: "prefix m (drop j s)"
      by simp_all
    from p obtain ss where "drop j s = m @ ss" by (auto simp: prefix_def)
    then have "s = take j s @ m @ ss"
      by (metis append_take_drop_id)
    then have "sublist m s" unfolding sublist_def by blast
    with n m show False by blast
  qed
qed

subsection \<open>The regular-expression fragment meets the contract of the matcher\<close>

lemma rx_match_Some:
  "anchor_free r \<Longrightarrow> rx_match canon r at s k = Some x
     \<Longrightarrow> \<exists>u v. s = u @ v \<and> u \<in> lang canon r \<and> k (at \<and> u = []) v = Some x"
proof (induction r arbitrary: at s k)
  case (Chr c)
  then obtain d rest where s: "s = d # rest" "canon c = canon d" "k False rest = Some x"
    by (cases s) (auto split: if_splits)
  show ?case
    by (rule exI [of _ "[d]"], rule exI [of _ rest]) (use s in simp)
next
  case Bol
  then show ?case by simp
next
  case Eol
  then show ?case by simp
next
  case Eps
  then show ?case by simp
next
  case (Seq a b)
  from Seq.prems have fa: "anchor_free a" and fb: "anchor_free b"
    and m: "rx_match canon a at s (\<lambda>at' s'. rx_match canon b at' s' k) = Some x"
    by simp_all
  from Seq.IH(1) [OF fa m] obtain u1 v1 where
    1: "s = u1 @ v1" "u1 \<in> lang canon a" "rx_match canon b (at \<and> u1 = []) v1 k = Some x"
    by blast
  from Seq.IH(2) [OF fb 1(3)] obtain u2 v where
    2: "v1 = u2 @ v" "u2 \<in> lang canon b" "k ((at \<and> u1 = []) \<and> u2 = []) v = Some x"
    by blast
  show ?case
    by (rule exI [of _ "u1 @ u2"], rule exI [of _ v]) (use 1 2 in \<open>auto simp: conj_assoc\<close>)
next
  case (Alt a b)
  from Alt.prems have fa: "anchor_free a" and fb: "anchor_free b" by simp_all
  from Alt.prems(2) have "rx_match canon a at s k = Some x \<or> rx_match canon b at s k = Some x"
    by (auto split: option.splits)
  then show ?case
  proof
    assume "rx_match canon a at s k = Some x"
    from Alt.IH(1) [OF fa this] show ?thesis by auto
  next
    assume "rx_match canon b at s k = Some x"
    from Alt.IH(2) [OF fb this] show ?thesis by auto
  qed
qed

lemma rx_search_Some:
  assumes "anchor_free R"
  shows "rx_search canon R i s = Some (j, m)
     \<Longrightarrow> \<exists>d. j = i + d \<and> prefix m (drop d s) \<and> m \<in> lang canon R"
proof (induction s arbitrary: i)
  case Nil
  then obtain rest where "rx_match canon R (i = 0) [] (\<lambda>_ rest. Some rest) = Some rest"
    and jm: "j = i" "m = []"
    by (auto split: option.splits)
  from rx_match_Some [OF assms this(1)] have "[] \<in> lang canon R"
    by auto
  with jm show ?case by simp
next
  case (Cons c s)
  show ?case
  proof (cases "rx_match canon R (i = 0) (c # s) (\<lambda>_ rest. Some rest)")
    case None
    with Cons.prems have "rx_search canon R (Suc i) s = Some (j, m)"
      by simp
    from Cons.IH [OF this] obtain d where "j = Suc i + d" "prefix m (drop d s)" "m \<in> lang canon R"
      by blast
    then show ?thesis
      by (intro exI [of _ "Suc d"]) simp
  next
    case (Some rest)
    with Cons.prems have jm: "j = i" "m = take (length (c # s) - length rest) (c # s)"
      by simp_all
    from rx_match_Some [OF assms Some] obtain u where "c # s = u @ rest" "u \<in> lang canon R"
      by auto
    with jm show ?thesis
      by (intro exI [of _ 0]) simp
  qed
qed

lemma rx_search_None:
  assumes "anchor_free R"
  shows "rx_search canon R i s = None \<Longrightarrow> drop d s = u @ v \<Longrightarrow> d \<le> length s
           \<Longrightarrow> u \<notin> lang canon R"
proof (induction s arbitrary: i d)
  case Nil
  then have n: "rx_match canon R (i = 0) [] (\<lambda>_ rest. Some rest) = None" and u: "u = []" "v = []"
    by (auto split: option.splits)
  show ?case
  proof
    assume "u \<in> lang canon R"
    with u have "\<exists>u' v'. [] = u' @ v' \<and> u' \<in> lang canon R
                   \<and> (\<lambda>_ rest. Some rest) ((i = 0) \<and> u' = []) v' \<noteq> None"
      by simp
    then have "rx_match canon R (i = 0) [] (\<lambda>_ rest. Some rest) \<noteq> None"
      by (simp only: rx_match_lang [OF assms])
    with n show False by simp
  qed
next
  case (Cons c s)
  from Cons.prems(1) have n: "rx_match canon R (i = 0) (c # s) (\<lambda>_ rest. Some rest) = None"
    and r: "rx_search canon R (Suc i) s = None"
    by (auto split: option.splits)
  show ?case
  proof (cases d)
    case 0
    show ?thesis
    proof
      assume "u \<in> lang canon R"
      with Cons.prems(2) 0 have "\<exists>u' v'. c # s = u' @ v' \<and> u' \<in> lang canon R
                   \<and> (\<lambda>_ rest. Some rest) ((i = 0) \<and> u' = []) v' \<noteq> None"
        by auto
      then have "rx_match canon R (i = 0) (c # s) (\<lambda>_ rest. Some rest) \<noteq> None"
        by (simp only: rx_match_lang [OF assms])
      with n show False by simp
    qed
  next
    case (Suc d')
    with Cons.prems have "drop d' s = u @ v" "d' \<le> length s"
      by simp_all
    from Cons.IH [OF r this] show ?thesis .
  qed
qed

lemma lang_lit_exact: "lang (\<lambda>c. c) (lit_rx y Eps) = {y}"
  by (simp add: lang_lit)

lemma lang_alts_exact: "lang (\<lambda>c. c) (alts_rx (lit_rx y Eps) ys) = set (y # ys)"
  by (auto simp: lang_alts lang_lit_exact)

lemma rx_parse_keys:
  assumes "[] \<notin> set ks" and "ks \<noteq> []"
  shows "\<exists>R. rx_parse (spec_arrayToPattern (map spec_escape_regex ks)) (None, Eps) [] = Some R
             \<and> anchor_free R \<and> lang (\<lambda>c. c) R = set ks"
proof (cases ks)
  case Nil
  with assms show ?thesis by simp
next
  case (Cons y1 ks1)
  show ?thesis
  proof (cases ks1)
    case Nil
    from assms have "spec_arrayToPattern (map spec_escape_regex [y1]) = spec_escape_regex y1"
      unfolding Cons Nil by (subst spec_arrayToPattern_escaped) simp_all
    moreover have "rx_parse (spec_escape_regex y1 @ []) (None, Eps) [] = Some (lit_rx y1 Eps)"
      by (simp only: rx_parse_escape rx_parse.simps) (simp add: close_frame_def)
    ultimately show ?thesis
      unfolding Cons Nil by (simp add: anchor_free_lit lang_lit_exact)
  next
    case c2: (Cons y2 ks2)
    from assms have "spec_arrayToPattern (map spec_escape_regex (y1 # y2 # ks2))
                       = ustr ''(?:'' @ join_bar (map spec_escape_regex (y1 # y2 # ks2)) @ ustr '')''"
      unfolding Cons c2 by (subst spec_arrayToPattern_escaped) simp_all
    moreover have "rx_parse (ustr ''(?:'' @ join_bar (map spec_escape_regex (y1 # y2 # ks2)) @ ustr '')'')
                     (None, Eps) []
                   = rx_parse (join_bar (map spec_escape_regex (y1 # y2 # ks2)) @ 0x29 # [])
                       (None, Eps) [(None, Eps)]"
      by (simp add: ustr_def)
    moreover have "\<dots> = Some (Seq Eps (alts_rx (lit_rx y1 Eps) (y2 # ks2)))"
      by (simp only: rx_parse_alternatives) (simp add: close_frame_def)
    ultimately show ?thesis
      unfolding Cons c2
      by (auto simp add: anchor_free_alts anchor_free_lit lang_alts_exact simp del: rx_parse.simps)
  qed
qed

lemma matcher_contract_frag: "matcher_contract frag_platform spec_helpers"
  unfolding matcher_contract_def
proof (intro allI impI)
  fix ks :: "ustring list"
  assume ne: "ks \<noteq> []" and l: "\<forall>k \<in> set ks. 1 < length k"
  then have "[] \<notin> set ks" by auto
  from rx_parse_keys [OF this ne] obtain R where
    p: "rx_parse (spec_arrayToPattern (map spec_escape_regex ks)) (None, Eps) [] = Some R"
    and af: "anchor_free R" and lg: "lang (\<lambda>c. c) R = set ks"
    by blast
  let ?re = "rx_search (\<lambda>c. c) R 0"
  have n: "new_RegExp frag_platform
             (arrayToPattern spec_helpers (map (escape_regex spec_helpers) ks)) ''u'' = Some ?re"
    by (simp add: frag_platform_def frag_RegExp_def spec_helpers_def p)
  have "\<And>s. case ?re s of
               None \<Rightarrow> \<forall>k \<in> set ks. \<not> sublist k s
             | Some (j, m) \<Rightarrow> m \<in> set ks \<and> prefix m (drop j s)"
  proof -
    fix s
    show "case ?re s of
               None \<Rightarrow> \<forall>k \<in> set ks. \<not> sublist k s
             | Some (j, m) \<Rightarrow> m \<in> set ks \<and> prefix m (drop j s)"
    proof (cases "?re s")
      case None
      have "\<forall>k \<in> set ks. \<not> sublist k s"
      proof
        fix k assume k: "k \<in> set ks"
        show "\<not> sublist k s"
        proof
          assume "sublist k s"
          then obtain ps ss where s: "s = ps @ k @ ss"
            by (auto simp: sublist_def)
          then have "drop (length ps) s = k @ ss" "length ps \<le> length s"
            by simp_all
          from rx_search_None [OF af None this] k lg show False
            by simp
        qed
      qed
      with None show ?thesis by simp
    next
      case (Some jm)
      then obtain j m where jm: "?re s = Some (j, m)"
        by (cases jm) auto
      from rx_search_Some [OF af jm] lg have "m \<in> set ks \<and> prefix m (drop j s)"
        by auto
      with jm show ?thesis by simp
    qed
  qed
  with n show "\<exists>re. new_RegExp frag_platform
             (arrayToPattern spec_helpers (map (escape_regex spec_helpers) ks)) ''u'' = Some re
          \<and> (\<forall>s. case re s of
               None \<Rightarrow> \<forall>k \<in> set ks. \<not> sublist k s
             | Some (j, m) \<Rightarrow> m \<in> set ks \<and> prefix m (drop j s))"
    by blast
qed

subsection \<open>getPattern on a folded input without a multi-character key\<close>

text \<open>
  Claim C1, as the spec states it: \<open>getPattern(s)\<close> returns nothing when no run of the
  folded \<open>s\<close> is a key of the map. With the example table (the one key \<open>ff\<close>) the code
  returns the pattern \<open>xyz123\<close> for the input \<open>xyz123\<close>.
\<close>

theorem getPattern_returns_pattern_without_variants:
  "(case getPattern frag_platform spec_helpers example_code_points None (ustr ''xyz123'') of
      Inl e \<Rightarrow> False
    | Inr (r, st) \<Rightarrow>
        r = Some (ustr ''xyz123'')
        \<and> asciifold frag_platform (ustr ''xyz123'') = ustr ''xyz123''
        \<and> list_all (\<lambda>run. unicode_map st run = None) (sublists (ustr ''xyz123'')))"
  by code_simp

text \<open>
  Claim C1, amended: when the map has a multi-character key and none of its
  multi-character keys occurs in the folded input, the matcher finds nothing, and
  \<open>getPattern\<close> always returns a pattern, since it calls \<open>mapSequence\<close> with the minimum 0:
  the concatenation pattern of one fragment per code point of the folded input, a code
  point without a map entry standing for itself, also when no character is replaced. The
  call that initialises the module and a later call on the initialised module agree.
\<close>

theorem getPattern_without_multi_char:
  assumes c: "matcher_contract P H"
    and b: "generateMap P H code_points = Inr st"
    and ne: "multi_char_keys st \<noteq> {}"
    and no: "\<forall>k \<in> multi_char_keys st. \<not> sublist k (asciifold P input)"
  shows "multi_char_reg st (asciifold P input) = None
         \<and> getPattern P H code_points None input
             = Inr (Some (sequencePattern H
                            (map (\<lambda>run. Some (fst (mapSequence_callback (unicode_map st) run)))
                                 (Array_from (asciifold P input)))), st)
         \<and> getPattern P H dflt (Some st) input = getPattern P H code_points None input"
proof -
  from no have g: "multi_char_reg st (asciifold P input) = None"
    by (simp only: generateMap_guard [OF c b ne])
  with b show ?thesis
    by (simp add: getPattern_def initialize_def getPattern_body_def mapSequence_eq Let_def)
qed

text \<open>
  With the example table, whose one multi-character key is \<open>ff\<close>, the pattern for the input
  \<open>xyz123\<close>, in which nothing is replaced, is \<open>xyz123\<close>.
\<close>

theorem getPattern_without_multi_char_witness:
  "matcher_contract frag_platform spec_helpers
   \<and> generateMap frag_platform spec_helpers example_code_points = Inr example_state
   \<and> multi_char_keys example_state = {ustr ''ff''}
   \<and> \<not> sublist (ustr ''ff'') (asciifold frag_platform (ustr ''xyz123''))
   \<and> getPattern frag_platform spec_helpers example_code_points None (ustr ''xyz123'')
       = Inr (Some (ustr ''xyz123''), example_state)"
proof -
  have s: "generateSets frag_platform spec_helpers example_code_points
             = Inr [(ustr ''ff'', [ustr ''ff'', [0xFB00]])]"
    by code_simp
  have k: "multi_char_keys example_state = {ustr ''ff''}"
    unfolding multi_char_keys_def dom_generateMap [OF example_generateMap s]
    by (auto simp: ustr_def)
  have n: "\<not> sublist (ustr ''ff'') (asciifold frag_platform (ustr ''xyz123''))"
    by code_simp
  have p: "sequencePattern spec_helpers
             (map (\<lambda>run. Some (fst (mapSequence_callback (unicode_map example_state) run)))
                  (Array_from (asciifold frag_platform (ustr ''xyz123''))))
           = ustr ''xyz123''"
    by code_simp
  from k n have ne: "multi_char_keys example_state \<noteq> {}"
    and no: "\<forall>k \<in> multi_char_keys example_state.
               \<not> sublist k (asciifold frag_platform (ustr ''xyz123''))"
    by simp_all
  from getPattern_without_multi_char [OF matcher_contract_frag example_generateMap ne no] p
  have "getPattern frag_platform spec_helpers example_code_points None (ustr ''xyz123'')
          = Inr (Some (ustr ''xyz123''), example_state)"
    by simp
  with matcher_contract_frag example_generateMap k n show ?thesis
    by simp
qed

section \<open>Does the pattern match the input?\<close>

text \<open>
  Claim C2, as the spec states it: the pattern of \<open>getPattern(s)\<close>, compiled with the
  flags \<open>iu\<close>, matches \<open>s\<close>. With the table of U+2167 and U+FB00, the pattern for U+2167
  is \<open>viii\<close>, the fold of a character that the map builder skips for its length, and it
  does not match U+2167. On the path of the scan, the pattern for \<open>ffxff\<close> (which is its
  own fold) is two copies of the fragment of \<open>ff\<close>: the \<open>x\<close>, which has no map entry, is
  lost, and the pattern does not match \<open>ffxff\<close>. And the pattern for \<open>a(b\<close> is \<open>a(b\<close>, since
  a run without map entry is not escaped: the engine rejects it with a SyntaxError.
\<close>

theorem getPattern_pattern_misses_input:
  "(case getPattern frag_platform spec_helpers example_code_points None [0x2167] of
      Inl e \<Rightarrow> False
    | Inr (r, st) \<Rightarrow>
        r = Some (ustr ''viii'') \<and> \<not> pattern_matches frag_platform (ustr ''viii'') [0x2167])
   \<and> (case getPattern frag_platform spec_helpers example_code_points None (ustr ''ffxff'') of
      Inl e \<Rightarrow> False
    | Inr (r, st) \<Rightarrow>
        r = Some (ustr ''(?:ff|'' @ [0xFB00] @ ustr '')(?:ff|'' @ [0xFB00] @ ustr '')'')
        \<and> asciifold frag_platform (ustr ''ffxff'') = ustr ''ffxff''
        \<and> \<not> pattern_matches frag_platform
              (ustr ''(?:ff|'' @ [0xFB00] @ ustr '')(?:ff|'' @ [0xFB00] @ ustr '')'')
              (ustr ''ffxff''))
   \<and> (case getPattern frag_platform spec_helpers example_code_points None (ustr ''a(b'') of
      Inl e \<Rightarrow> False
    | Inr (r, st) \<Rightarrow>
        r = Some (ustr ''a(b'')
        \<and> asciifold frag_platform (ustr ''a(b'') = ustr ''a(b''
        \<and> new_RegExp frag_platform (ustr ''a(b'') ''iu'' = None
        \<and> \<not> pattern_matches frag_platform (ustr ''a(b'') (ustr ''a(b''))"
  by code_simp

subsection \<open>The patterns of mapSequence, substringsToPattern and sequencesToPattern\<close>

lemma pc_seq:
  assumes "pattern_contract P H"
    and "list_all2 (\<lambda>p x. p \<in> built H \<and> fragment_matches P p x) ps xs"
  shows "fragment_matches P (sequencePattern H (map Some ps)) (concat xs)"
proof -
  from assms(1) have "\<forall>ps xs. list_all2 (\<lambda>p x. p \<in> built H \<and> fragment_matches P p x) ps xs
          \<longrightarrow> fragment_matches P (sequencePattern H (map Some ps)) (concat xs)"
    unfolding pattern_contract_def by (elim conjE)
  from this [rule_format, OF assms(2)] show ?thesis .
qed

lemma pc_alt:
  assumes "pattern_contract P H"
    and "set ps \<subseteq> built H" and "p \<in> set ps" and "p \<noteq> []" and "fragment_matches P p x"
  shows "fragment_matches P (arrayToPattern H ps) x"
proof -
  from assms(1) have "\<forall>ps p x. set ps \<subseteq> built H \<longrightarrow> p \<in> set ps \<longrightarrow> p \<noteq> []
          \<longrightarrow> fragment_matches P p x \<longrightarrow> fragment_matches P (arrayToPattern H ps) x"
    unfolding pattern_contract_def by (elim conjE)
  from this [rule_format, OF assms(2-5)] show ?thesis .
qed

lemma pc_cat:
  assumes "pattern_contract P H"
    and "p \<in> built H" and "q \<in> built H" and "fragment_matches P p x"
    and "fragment_matches P q y"
  shows "fragment_matches P (p @ q) (x @ y)"
proof -
  from assms(1) have "\<forall>p q x y. p \<in> built H \<longrightarrow> q \<in> built H \<longrightarrow> fragment_matches P p x
          \<longrightarrow> fragment_matches P q y \<longrightarrow> fragment_matches P (p @ q) (x @ y)"
    unfolding pattern_contract_def by (elim conjE)
  from this [rule_format, OF assms(2-5)] show ?thesis .
qed

lemma pc_search:
  assumes "pattern_contract P H" and "p \<in> built H" and "fragment_matches P p x"
  shows "pattern_matches P p x"
proof -
  from assms(1) have "\<forall>p x. p \<in> built H \<longrightarrow> fragment_matches P p x \<longrightarrow> pattern_matches P p x"
    unfolding pattern_contract_def by (elim conjE)
  from this [rule_format, OF assms(2,3)] show ?thesis .
qed

lemma pc_literal:
  assumes "pattern_contract P H" and "c \<notin> set syntax_chars"
  shows "fragment_matches P [c] [c]"
proof -
  from assms(1) have "\<forall>c. c \<notin> set syntax_chars \<longrightarrow> fragment_matches P [c] [c]"
    unfolding pattern_contract_def by (elim conjE)
  from this [rule_format, OF assms(2)] show ?thesis .
qed

lemma pc_empty:
  assumes "pattern_contract P H"
  shows "fragment_matches P [] x = (x = [])"
proof -
  from assms have "\<forall>x. fragment_matches P [] x \<longleftrightarrow> x = []"
    unfolding pattern_contract_def by (elim conjE)
  then show ?thesis ..
qed

lemma pc_variants:
  assumes "pattern_contract P H" and "escaped_variants H S" and "S \<noteq> []"
  shows "setToPattern H S \<noteq> []"
proof -
  from assms(1) have "\<forall>S. escaped_variants H S \<longrightarrow> S \<noteq> [] \<longrightarrow> setToPattern H S \<noteq> []"
    unfolding pattern_contract_def by (elim conjE)
  from this [rule_format, OF assms(2,3)] show ?thesis .
qed

lemma pc_nonempty:
  "pattern_contract P H \<Longrightarrow> fragment_matches P p x \<Longrightarrow> x \<noteq> [] \<Longrightarrow> p \<noteq> []"
  by (auto simp: pc_empty)

lemma good_map_fragment:
  "good_map P H m \<Longrightarrow> m run = Some f \<Longrightarrow> fst (mapSequence_callback m run) = f"
  by (simp add: good_map_def mapSequence_callback_def)

text \<open>What \<open>mapSequence\<close> returns is built from the fragments of its runs.\<close>

lemma mapSequence_built:
  assumes gm: "good_map P H m"
    and lits: "\<forall>run \<in> set strings. m run = None \<longrightarrow> run \<in> built H"
    and r: "mapSequence H m strings mr = Some p"
  shows "p \<in> built H"
proof -
  from r have p: "p = sequencePattern H
                       (map (\<lambda>run. Some (fst (mapSequence_callback m run))) strings)"
    by (simp add: mapSequence_eq split: if_splits)
  have "\<forall>p'. Some p' \<in> set (map (\<lambda>run. Some (fst (mapSequence_callback m run))) strings)
          \<longrightarrow> p' \<in> built H"
  proof (intro allI impI)
    fix p' assume "Some p' \<in> set (map (\<lambda>run. Some (fst (mapSequence_callback m run))) strings)"
    then obtain run where run: "run \<in> set strings" "p' = fst (mapSequence_callback m run)"
      by auto
    show "p' \<in> built H"
    proof (cases "m run")
      case None
      with run lits show ?thesis by (simp add: mapSequence_callback_None)
    next
      case (Some f)
      with run gm show ?thesis by (simp add: good_map_fragment) (simp add: good_map_def)
    qed
  qed
  then show ?thesis
    unfolding p by (rule built.sequence)
qed

lemma mapSequence_covers:
  assumes pc: "pattern_contract P H" and gm: "good_map P H m"
    and lits: "\<forall>run \<in> set strings. m run = None \<longrightarrow> run \<in> built H"
    and r: "mapSequence H m strings mr = Some p"
    and vs: "list_all2 (\<lambda>run v. fragment_matches P (fst (mapSequence_callback m run)) v) strings vs"
  shows "fragment_matches P p (concat vs)"
proof -
  let ?ps = "map (\<lambda>run. fst (mapSequence_callback m run)) strings"
  from r have p: "p = sequencePattern H (map Some ?ps)"
    by (simp add: mapSequence_eq comp_def split: if_splits)
  have b: "\<And>run. run \<in> set strings \<Longrightarrow> fst (mapSequence_callback m run) \<in> built H"
  proof -
    fix run assume run: "run \<in> set strings"
    show "fst (mapSequence_callback m run) \<in> built H"
    proof (cases "m run")
      case None
      with run lits show ?thesis by (simp add: mapSequence_callback_None)
    next
      case (Some f)
      with gm show ?thesis by (simp add: good_map_fragment) (simp add: good_map_def)
    qed
  qed
  from vs have "list_all2 (\<lambda>p x. p \<in> built H \<and> fragment_matches P p x) ?ps vs"
    unfolding list_all2_map1
    by (rule list.rel_mono_strong) (simp add: b)
  from pc_seq [OF pc this] show ?thesis
    unfolding p .
qed

lemma fst_mapSequence_loop_Cons:
  "fst (mapSequence_loop m (r # sub))
     = snd (mapSequence_callback m r) + fst (mapSequence_loop m sub)"
  by (simp add: Let_def split: prod.splits)

lemma snd_mapSequence_callback:
  "snd (mapSequence_callback m r) = (if m r = None then 0 else length r)"
  by (simp add: mapSequence_callback_def split: option.splits)

lemma chars_replaced_le: "fst (mapSequence_loop m sub) \<le> length (concat sub)"
  by (induction sub)
     (simp_all add: fst_mapSequence_loop_Cons snd_mapSequence_callback
        del: mapSequence_loop.simps(2))

lemma chars_replaced_unmapped:
  "run \<in> set sub \<Longrightarrow> m run = None
     \<Longrightarrow> fst (mapSequence_loop m sub) + length run \<le> length (concat sub)"
proof (induction sub)
  case Nil
  then show ?case by simp
next
  case (Cons r sub)
  show ?case
  proof (cases "run = r")
    case True
    with Cons.prems(2) chars_replaced_le [of m sub] show ?thesis
      by (simp add: fst_mapSequence_loop_Cons snd_mapSequence_callback
            del: mapSequence_loop.simps(2))
  next
    case False
    with Cons.prems have "run \<in> set sub" by simp
    from Cons.IH [OF this Cons.prems(2)] show ?thesis
      by (simp add: fst_mapSequence_loop_Cons snd_mapSequence_callback
            del: mapSequence_loop.simps(2))
  qed
qed

lemma set_substringsToPattern_loop:
  "set (substringsToPattern_loop H m mr subs)
     = {p. p \<noteq> [] \<and> (\<exists>sub \<in> set subs. mapSequence H m sub mr = Some p)}"
  by (induction subs) (auto split: option.splits)

text \<open>
  A partition that meets the minimum \<open>max(min_replacement, length - 1)\<close> has at most one
  code unit outside the map.
\<close>

lemma surviving_unmapped_single:
  assumes "[] \<notin> set sub"
    and "mapSequence H m sub (max mr (int (length (concat sub)) - 1)) = Some p"
    and "run \<in> set sub" and "m run = None"
  shows "length run = 1"
proof -
  from assms(2) have "int (length (concat sub)) - 1 \<le> int (fst (mapSequence_loop m sub))"
    by (simp add: mapSequence_eq split: if_splits)
  with chars_replaced_unmapped [where run = run and sub = sub and m = m, OF assms(3,4)]
  have "length run \<le> 1"
    by linarith
  moreover from assms(1,3) have "run \<noteq> []" by auto
  ultimately show ?thesis
    by (cases run) auto
qed

lemma substringsToPattern_patterns_built:
  assumes sc: "substrings_contract H" and gm: "good_map P H m"
    and chars: "\<forall>c \<in> set t. m [c] = None \<longrightarrow> c \<notin> set syntax_chars"
  shows "set (substringsToPattern_loop H m (max mr (int (length t) - 1)) (allSubstrings H t))
           \<subseteq> built H"
proof
  fix p assume "p \<in> set (substringsToPattern_loop H m (max mr (int (length t) - 1))
                           (allSubstrings H t))"
  then obtain sub where sub: "sub \<in> set (allSubstrings H t)"
    and r: "mapSequence H m sub (max mr (int (length t) - 1)) = Some p"
    by (auto simp: set_substringsToPattern_loop)
  from sub sc have c: "concat sub = t" and ne: "[] \<notin> set sub"
    by (simp_all add: substrings_contract_def)
  have "\<forall>run \<in> set sub. m run = None \<longrightarrow> run \<in> built H"
  proof (intro ballI impI)
    fix run assume run: "run \<in> set sub" and n: "m run = None"
    from r c have "mapSequence H m sub (max mr (int (length (concat sub)) - 1)) = Some p"
      by simp
    from surviving_unmapped_single [OF ne this run n] obtain c' where c': "run = [c']"
      by (cases run) auto
    with run c have "c' \<in> set t" by (auto intro!: bexI [of _ "[c']"])
    with chars n c' have "c' \<notin> set syntax_chars" by simp
    with c' show "run \<in> built H" by (simp add: built.literal)
  qed
  from mapSequence_built [OF gm this r] show "p \<in> built H" .
qed

lemma substringsToPattern_built:
  assumes sc: "substrings_contract H" and gm: "good_map P H m"
    and chars: "\<forall>c \<in> set t. m [c] = None \<longrightarrow> c \<notin> set syntax_chars"
    and r: "substringsToPattern H m t mr = Some q"
  shows "q \<in> built H"
proof -
  let ?ps = "substringsToPattern_loop H m (max mr (int (length t) - 1)) (allSubstrings H t)"
  from r have "q = arrayToPattern H ?ps"
    by (simp add: substringsToPattern_def Let_def split: if_splits)
  moreover from substringsToPattern_patterns_built [OF sc gm chars, of mr]
  have "\<forall>p \<in> set ?ps. p \<in> built H" by blast
  ultimately show ?thesis
    by (simp add: built.alternation)
qed

text \<open>The pattern of a key matches whatever the fragment of the key matches.\<close>

lemma substringsToPattern_key:
  assumes pc: "pattern_contract P H" and sc: "substrings_contract H" and gm: "good_map P H m"
    and chars: "\<forall>c \<in> set t. m [c] = None \<longrightarrow> c \<notin> set syntax_chars"
    and k: "m t = Some f"
  shows "\<exists>q. substringsToPattern H m t 1 = Some q \<and> q \<in> built H
             \<and> (\<forall>v. fragment_matches P f v \<longrightarrow> fragment_matches P q v)"
proof -
  let ?mr = "max 1 (int (length t) - 1)"
  let ?ps = "substringsToPattern_loop H m ?mr (allSubstrings H t)"
  let ?p0 = "sequencePattern H [Some f]"
  from gm k have t: "t \<noteq> []" and f: "f \<noteq> []" "f \<in> built H" "fragment_matches P f t"
    by (simp_all add: good_map_def)
  from sc t have in_subs: "[t] \<in> set (allSubstrings H t)"
    by (simp add: substrings_contract_def)
  from t have "?mr \<le> int (length t)"
    by (cases t) auto
  with k f have m0: "mapSequence H m [t] ?mr = Some ?p0"
    by (simp add: mapSequence_eq mapSequence_callback_def)
  have cov: "\<And>v. fragment_matches P f v \<Longrightarrow> fragment_matches P ?p0 v"
  proof -
    fix v assume "fragment_matches P f v"
    with f have "list_all2 (\<lambda>p x. p \<in> built H \<and> fragment_matches P p x) [f] [v]"
      by simp
    from pc_seq [OF pc this] show "fragment_matches P ?p0 v" by simp
  qed
  from cov [OF f(3)] t have ne: "?p0 \<noteq> []"
    by (rule pc_nonempty [OF pc])
  from in_subs m0 ne have p0: "?p0 \<in> set ?ps"
    by (auto simp: set_substringsToPattern_loop)
  then have "?ps \<noteq> []" by auto
  then have r: "substringsToPattern H m t 1 = Some (arrayToPattern H ?ps)"
    by (simp add: substringsToPattern_def Let_def)
  note b = substringsToPattern_patterns_built [OF sc gm chars, of 1]
  have "\<forall>v. fragment_matches P f v \<longrightarrow> fragment_matches P (arrayToPattern H ?ps) v"
    using pc_alt [OF pc b p0 ne] cov by blast
  moreover from b have "arrayToPattern H ?ps \<in> built H"
    by (intro built.alternation) blast
  ultimately show ?thesis
    using r by blast
qed

text \<open>The pattern of a sequence: the concatenation of the patterns of its texts.\<close>

lemma texts_pattern_built:
  assumes sc: "substrings_contract H" and gm: "good_map P H m"
    and chars: "\<forall>t \<in> set ts. \<forall>c \<in> set t. m [c] = None \<longrightarrow> c \<notin> set syntax_chars"
  shows "sequencePattern H (map (\<lambda>t. substringsToPattern H m t 1) ts) \<in> built H"
proof (rule built.sequence, intro allI impI)
  fix p assume "Some p \<in> set (map (\<lambda>t. substringsToPattern H m t 1) ts)"
  then obtain t where t: "t \<in> set ts" "substringsToPattern H m t 1 = Some p"
    by auto
  with chars have "\<forall>c \<in> set t. m [c] = None \<longrightarrow> c \<notin> set syntax_chars"
    by simp
  from substringsToPattern_built [OF sc gm this t(2)] show "p \<in> built H" .
qed

lemma texts_pattern_covers:
  assumes pc: "pattern_contract P H" and sc: "substrings_contract H" and gm: "good_map P H m"
    and chars: "\<forall>t \<in> set ts. \<forall>c \<in> set t. m [c] = None \<longrightarrow> c \<notin> set syntax_chars"
    and keys: "\<forall>t \<in> set ts. m t \<noteq> None"
    and vs: "list_all2 (\<lambda>g v. fragment_matches P (fst (mapSequence_callback m g)) v) ts vs"
  shows "fragment_matches P (sequencePattern H (map (\<lambda>t. substringsToPattern H m t 1) ts))
           (concat vs)"
proof -
  let ?qs = "map (\<lambda>t. the (substringsToPattern H m t 1)) ts"
  have key: "\<And>t. t \<in> set ts \<Longrightarrow>
               \<exists>q f. m t = Some f \<and> substringsToPattern H m t 1 = Some q \<and> q \<in> built H
                 \<and> (\<forall>v. fragment_matches P f v \<longrightarrow> fragment_matches P q v)"
  proof -
    fix t assume t: "t \<in> set ts"
    with keys obtain f where f: "m t = Some f" by auto
    from t chars have "\<forall>c \<in> set t. m [c] = None \<longrightarrow> c \<notin> set syntax_chars"
      by simp
    from substringsToPattern_key [OF pc sc gm this f] f
    show "\<exists>q f. m t = Some f \<and> substringsToPattern H m t 1 = Some q \<and> q \<in> built H
                 \<and> (\<forall>v. fragment_matches P f v \<longrightarrow> fragment_matches P q v)"
      by blast
  qed
  have e: "map (\<lambda>t. substringsToPattern H m t 1) ts = map Some ?qs"
    unfolding map_map comp_def
  proof (rule map_cong [OF refl])
    fix t assume "t \<in> set ts"
    from key [OF this] show "substringsToPattern H m t 1 = Some (the (substringsToPattern H m t 1))"
      by auto
  qed
  from vs have "list_all2 (\<lambda>p x. p \<in> built H \<and> fragment_matches P p x) ?qs vs"
    unfolding list_all2_map1
  proof (rule list.rel_mono_strong)
    fix t v assume t: "t \<in> set ts"
      and f: "fragment_matches P (fst (mapSequence_callback m t)) v"
    from key [OF t] obtain q f' where
      q: "m t = Some f'" "substringsToPattern H m t 1 = Some q" "q \<in> built H"
        "\<forall>v. fragment_matches P f' v \<longrightarrow> fragment_matches P q v"
      by blast
    from f q(1) gm have "fragment_matches P f' v"
      by (simp add: good_map_fragment)
    with q show "the (substringsToPattern H m t 1) \<in> built H
                 \<and> fragment_matches P (the (substringsToPattern H m t 1)) v"
      by simp
  qed
  from pc_seq [OF pc this] show ?thesis
    unfolding e .
qed

lemma keys_match_themselves:
  assumes gm: "good_map P H m" and keys: "\<forall>t \<in> set ts. m t \<noteq> None"
  shows "list_all2 (\<lambda>g v. fragment_matches P (fst (mapSequence_callback m g)) v) ts ts"
  unfolding list_all2_same
proof
  fix t assume "t \<in> set ts"
  with keys obtain f where f: "m t = Some f" by auto
  with gm show "fragment_matches P (fst (mapSequence_callback m t)) t"
    by (simp add: good_map_fragment) (simp add: good_map_def)
qed

text \<open>
  The alternation over the live sequences matches what the pattern of the first sequence
  matches, when the texts of the first sequence are keys.
\<close>

lemma alternation_covers:
  assumes pc: "pattern_contract P H" and sc: "substrings_contract H" and gm: "good_map P H m"
    and chars: "\<forall>ts \<in> set (hs # tss). \<forall>t \<in> set ts. \<forall>c \<in> set t.
                  m [c] = None \<longrightarrow> c \<notin> set syntax_chars"
    and keys: "\<forall>t \<in> set hs. m t \<noteq> None" and ne: "hs \<noteq> []"
  shows "arrayToPattern H
           (map (\<lambda>ts. sequencePattern H (map (\<lambda>t. substringsToPattern H m t 1) ts)) (hs # tss))
           \<in> built H
         \<and> (\<forall>vs. list_all2 (\<lambda>g v. fragment_matches P (fst (mapSequence_callback m g)) v) hs vs
              \<longrightarrow> fragment_matches P
                    (arrayToPattern H
                       (map (\<lambda>ts. sequencePattern H (map (\<lambda>t. substringsToPattern H m t 1) ts))
                            (hs # tss)))
                    (concat vs))"
proof -
  let ?alt = "\<lambda>ts. sequencePattern H (map (\<lambda>t. substringsToPattern H m t 1) ts)"
  have b: "set (map ?alt (hs # tss)) \<subseteq> built H"
  proof
    fix p assume "p \<in> set (map ?alt (hs # tss))"
    then obtain ts where ts: "ts \<in> set (hs # tss)" "p = ?alt ts"
      by auto
    with chars have "\<forall>t \<in> set ts. \<forall>c \<in> set t. m [c] = None \<longrightarrow> c \<notin> set syntax_chars"
      by blast
    from texts_pattern_built [OF sc gm this] ts show "p \<in> built H"
      by simp
  qed
  from chars have ch: "\<forall>t \<in> set hs. \<forall>c \<in> set t. m [c] = None \<longrightarrow> c \<notin> set syntax_chars"
    by simp
  from keys gm have "\<forall>t \<in> set hs. t \<noteq> []"
    by (auto simp: good_map_def)
  with ne have cne: "concat hs \<noteq> []"
    by (cases hs) auto
  from texts_pattern_covers [OF pc sc gm ch keys keys_match_themselves [OF gm keys]]
  have "fragment_matches P (?alt hs) (concat hs)" .
  from pc_nonempty [OF pc this cne] have n: "?alt hs \<noteq> []" .
  have i: "?alt hs \<in> set (map ?alt (hs # tss))"
    by simp
  have "\<forall>vs. list_all2 (\<lambda>g v. fragment_matches P (fst (mapSequence_callback m g)) v) hs vs
          \<longrightarrow> fragment_matches P (arrayToPattern H (map ?alt (hs # tss))) (concat vs)"
  proof (intro allI impI)
    fix vs assume "list_all2 (\<lambda>g v. fragment_matches P (fst (mapSequence_callback m g)) v) hs vs"
    from texts_pattern_covers [OF pc sc gm ch keys this]
    have "fragment_matches P (?alt hs) (concat vs)" .
    from pc_alt [OF pc b i n this]
    show "fragment_matches P (arrayToPattern H (map ?alt (hs # tss))) (concat vs)" .
  qed
  moreover from b have "arrayToPattern H (map ?alt (hs # tss)) \<in> built H"
    by (intro built.alternation) blast
  ultimately show ?thesis by blast
qed

subsection \<open>The segmentation that the first live sequence follows\<close>

lemma match_at_Some:
  assumes "matcher_ok st" and "match_at st str i = Some m0"
  shows "unicode_map st m0 \<noteq> None \<and> 1 < length m0 \<and> prefix m0 (drop i str)"
proof -
  from assms(2) have "multi_char_reg st (drop i str) = Some (0, m0)"
    by (auto simp: match_at_def split: option.splits if_splits)
  with assms(1) have "m0 \<in> multi_char_keys st \<and> prefix m0 (drop 0 (drop i str))"
    unfolding matcher_ok_def by (metis (mono_tags, lifting) option.simps(5) case_prod_conv)
  then show ?thesis
    by (auto simp: multi_char_keys_def)
qed

lemma added_part_facts:
  assumes "matcher_ok st"
  shows "start_p (added_part i (match_at st str i) (take 1 (drop i str))) = i"
    and "substr (added_part i (match_at st str i) (take 1 (drop i str)))
           = (case match_at st str i of Some m0 \<Rightarrow> m0 | None \<Rightarrow> take 1 (drop i str))"
    and "end_p (added_part i (match_at st str i) (take 1 (drop i str)))
           = (case match_at st str i of Some m0 \<Rightarrow> i + length m0 | None \<Rightarrow> Suc i)"
    and "length_p (added_part i (match_at st str i) (take 1 (drop i str))) = 1
           \<Longrightarrow> match_at st str i = None"
    and "set (substr (added_part i (match_at st str i) (take 1 (drop i str)))) \<subseteq> set str"
proof -
  show "start_p (added_part i (match_at st str i) (take 1 (drop i str))) = i"
    by (simp add: added_part_def match_part_def char_part_def split: option.splits)
  show "substr (added_part i (match_at st str i) (take 1 (drop i str)))
           = (case match_at st str i of Some m0 \<Rightarrow> m0 | None \<Rightarrow> take 1 (drop i str))"
    by (simp add: added_part_def match_part_def char_part_def split: option.splits)
  show "end_p (added_part i (match_at st str i) (take 1 (drop i str)))
           = (case match_at st str i of Some m0 \<Rightarrow> i + length m0 | None \<Rightarrow> Suc i)"
    by (simp add: added_part_def match_part_def char_part_def split: option.splits)
  show "length_p (added_part i (match_at st str i) (take 1 (drop i str))) = 1
           \<Longrightarrow> match_at st str i = None"
    using match_at_Some [OF assms, of str i]
    by (cases "match_at st str i") (auto simp: added_part_def match_part_def)
  show "set (substr (added_part i (match_at st str i) (take 1 (drop i str)))) \<subseteq> set str"
  proof (cases "match_at st str i")
    case None
    have "set (take 1 (drop i str)) \<subseteq> set str"
      by (meson set_take_subset set_drop_subset subset_trans)
    with None show ?thesis
      by (simp add: added_part_def char_part_def)
  next
    case (Some m0)
    from match_at_Some [OF assms Some] obtain r where "drop i str = m0 @ r"
      by (auto simp: prefix_def)
    then have "set m0 \<subseteq> set (drop i str)" by simp
    with set_drop_subset [of i str] have "set m0 \<subseteq> set str" by blast
    with Some show ?thesis
      by (simp add: added_part_def match_part_def)
  qed
qed

lemma greedy_Suc:
  "greedy st str (Suc i)
     = (if snd (greedy st str i) \<le> i
        then (fst (greedy st str i)
                @ [substr (added_part i (match_at st str i) (take 1 (drop i str)))],
              end_p (added_part i (match_at st str i) (take 1 (drop i str))))
        else greedy st str i)"
  by (simp add: greedy.simps(2) Let_def added_part_def match_part_def char_part_def
        split: prod.splits option.splits)

lemma greedy_bounds:
  assumes "matcher_ok st"
  shows "i \<le> length str \<Longrightarrow>
           i \<le> snd (greedy st str i) \<and> snd (greedy st str i) \<le> length str
           \<and> concat (fst (greedy st str i)) = take (snd (greedy st str i)) str"
proof (induction i)
  case 0
  show ?case by simp
next
  case (Suc i)
  then have IH: "i \<le> snd (greedy st str i)" "snd (greedy st str i) \<le> length str"
    "concat (fst (greedy st str i)) = take (snd (greedy st str i)) str"
    and i: "i < length str"
    by simp_all
  show ?case
  proof (cases "snd (greedy st str i) \<le> i")
    case False
    with IH show ?thesis
      by (simp only: greedy_Suc if_False) simp
  next
    case True
    with IH have e: "snd (greedy st str i) = i" by simp
    let ?np = "added_part i (match_at st str i) (take 1 (drop i str))"
    from True have g: "greedy st str (Suc i) = (fst (greedy st str i) @ [substr ?np], end_p ?np)"
      by (simp only: greedy_Suc if_True)
    show ?thesis
    proof (cases "match_at st str i")
      case None
      then have n: "substr ?np = take 1 (drop i str)" "end_p ?np = Suc i"
        by (simp_all add: added_part_def char_part_def)
      have "take i str @ take 1 (drop i str) = take (i + 1) str"
        by (simp only: take_add)
      with IH i e show ?thesis
        unfolding g n by simp
    next
      case (Some m0)
      then have n: "substr ?np = m0" "end_p ?np = i + length m0"
        by (simp_all add: added_part_def match_part_def)
      from match_at_Some [OF assms Some] obtain r where l: "1 < length m0"
        and r: "drop i str = m0 @ r"
        by (auto simp: prefix_def)
      from r have "length m0 \<le> length (drop i str)" by simp
      with i have b: "i + length m0 \<le> length str" by simp
      from r have "take (length m0) (drop i str) = m0" by simp
      then have "take i str @ m0 = take (i + length m0) str"
        by (simp only: take_add)
      with IH e l b show ?thesis
        unfolding g n by simp
    qed
  qed
qed

lemma greedy_mono: "i \<le> j \<Longrightarrow> prefix (fst (greedy st str i)) (fst (greedy st str j))"
proof (induction j)
  case 0
  then show ?case by simp
next
  case (Suc j)
  show ?case
  proof (cases "i = Suc j")
    case True
    then show ?thesis by simp
  next
    case False
    with Suc have "prefix (fst (greedy st str i)) (fst (greedy st str j))"
      by simp
    moreover have "prefix (fst (greedy st str j)) (fst (greedy st str (Suc j)))"
      by (simp only: greedy_Suc) (simp add: prefix_def)
    ultimately show ?thesis
      by (rule prefix_order.trans)
  qed
qed

lemma greedy_texts:
  assumes "matcher_ok st" and "i \<le> length str" and "g \<in> set (fst (greedy st str i))"
  shows "set g \<subseteq> set str"
proof -
  from greedy_bounds [OF assms(1,2)]
  have "concat (fst (greedy st str i)) = take (snd (greedy st str i)) str"
    by simp
  with assms(3) have "set g \<subseteq> set (take (snd (greedy st str i)) str)"
    by (metis (no_types) set_concat UN_upper)
  with set_take_subset show ?thesis
    by fast
qed

subsection \<open>The invariant of the scan\<close>

lemma head_extends:
  assumes hk: "head_ok st str i k h"
  shows "extends_at i h \<longleftrightarrow> snd (greedy st str i) \<le> i"
proof (cases "parts h = []")
  case True
  with hk have "drop k (fst (greedy st str i)) = []"
    by (simp add: head_ok_def)
  with hk have "i = 0"
    by (auto simp: head_ok_def)
  with True show ?thesis
    by (simp add: extends_at_def Sequence_last_def)
next
  case False
  with hk show ?thesis
    by (auto simp: head_ok_def extends_at_def Sequence_last_def)
qed

lemma head_step:
  assumes mo: "matcher_ok st" and hk: "head_ok st str i k h"
  shows "head_ok st str (Suc i) k
           (if extends_at i h
            then Sequence_add h (added_part i (match_at st str i) (take 1 (drop i str)))
            else h)"
proof (cases "extends_at i h")
  case True
  let ?np = "added_part i (match_at st str i) (take 1 (drop i str))"
  from True hk have e: "snd (greedy st str i) \<le> i"
    by (simp add: head_extends)
  then have g: "greedy st str (Suc i) = (fst (greedy st str i) @ [substr ?np], end_p ?np)"
    by (simp only: greedy_Suc if_True)
  from hk have k: "k \<le> length (fst (greedy st str i))"
    and m: "map substr (parts h) = drop k (fst (greedy st str i))"
    by (simp_all add: head_ok_def)
  have l: "length_p ?np = 1 \<longrightarrow> end_p ?np \<le> Suc i"
    using added_part_facts(3,4) [OF mo, of i str] by auto
  have s: "start_p ?np = i"
    by (rule added_part_facts(1) [OF mo])
  from k m l s show ?thesis
    unfolding head_ok_def g
    by (simp add: True parts_Sequence_add)
next
  case False
  then have g: "greedy st str (Suc i) = greedy st str i"
    using hk by (simp only: greedy_Suc head_extends [OF hk]) simp
  from not_extends_last [OF False] have ne: "parts h \<noteq> []" by auto
  with hk have "drop k (fst (greedy st str i)) \<noteq> []"
    by (auto simp: head_ok_def)
  then have "k < length (fst (greedy st str i))" by simp
  with hk ne False show ?thesis
    unfolding head_ok_def g by auto
qed

lemma compacted_head:
  assumes mo: "matcher_ok st" and e: "snd (greedy st str i) \<le> i"
  shows "head_ok st str (Suc i) (length (fst (greedy st str i)))
           (Sequence_add new_Sequence (added_part i (match_at st str i) (take 1 (drop i str))))"
proof -
  let ?np = "added_part i (match_at st str i) (take 1 (drop i str))"
  from e have g: "greedy st str (Suc i) = (fst (greedy st str i) @ [substr ?np], end_p ?np)"
    by (simp only: greedy_Suc if_True)
  have l: "length_p ?np = 1 \<longrightarrow> end_p ?np \<le> Suc i"
    using added_part_facts(3,4) [OF mo, of i str] by auto
  have s: "start_p ?np = i"
    by (rule added_part_facts(1) [OF mo])
  from l s show ?thesis
    unfolding head_ok_def g
    by (simp add: parts_Sequence_add new_Sequence_def)
qed

lemma texts_ok_step:
  assumes mo: "matcher_ok st" and t: "texts_ok str seqs"
  shows "texts_ok str
           (map (\<lambda>s. if extends_at i s
                      then Sequence_add s (added_part i (match_at st str i) (take 1 (drop i str)))
                      else s) seqs)"
  unfolding texts_ok_def
proof (intro ballI)
  let ?np = "added_part i (match_at st str i) (take 1 (drop i str))"
  fix s' assume "s' \<in> set (map (\<lambda>s. if extends_at i s then Sequence_add s ?np else s) seqs)"
  then obtain s where s: "s \<in> set seqs" "s' = (if extends_at i s then Sequence_add s ?np else s)"
    by auto
  from t s(1) have a: "substrs s = map substr (parts s)"
    and b: "\<forall>p \<in> set (parts s). set (substr p) \<subseteq> set str"
    by (simp_all add: texts_ok_def)
  have np: "set (substr ?np) \<subseteq> set str"
    by (rule added_part_facts(5) [OF mo])
  show "substrs s' = map substr (parts s') \<and> (\<forall>p \<in> set (parts s'). set (substr p) \<subseteq> set str)"
  proof (cases "extends_at i s")
    case True
    with s a b np show ?thesis
      by (simp add: parts_Sequence_add substrs_Sequence_add)
  next
    case False
    with s a b show ?thesis by simp
  qed
qed

lemma texts_ok_clone:
  assumes mo: "matcher_ok st" and m: "match_at st str i = Some m0"
    and t: "texts_ok str seqs" and s: "s \<in> set seqs" and n: "\<not> extends_at i s"
  shows "substrs (clone_with i m0 s) = map substr (parts (clone_with i m0 s))
         \<and> (\<forall>p \<in> set (parts (clone_with i m0 s)). set (substr p) \<subseteq> set str)"
proof -
  from not_extends_last [OF n] obtain lp where
    lp: "Sequence_last s = Some lp" and ne: "parts s \<noteq> []" by auto
  then have l: "lp = last (parts s)"
    by (simp add: Sequence_last_def)
  from t s have ps: "\<forall>p \<in> set (parts s). set (substr p) \<subseteq> set str"
    by (simp add: texts_ok_def)
  with l ne have a: "set (substr lp) \<subseteq> set str" by simp
  have "set (take (i - start_p lp) (substr lp)) \<subseteq> set (substr lp)"
    by (rule set_take_subset)
  with a have b: "set (take (i - start_p lp) (substr lp)) \<subseteq> set str" by blast
  from match_at_Some [OF mo m] obtain r where "drop i str = m0 @ r"
    by (auto simp: prefix_def)
  then have "set m0 \<subseteq> set (drop i str)" by simp
  with set_drop_subset [of i str] have c: "set m0 \<subseteq> set str" by blast
  from ps have "\<forall>p \<in> set (butlast (parts s)). set (substr p) \<subseteq> set str"
    by (meson in_set_butlastD)
  with b c have "\<forall>p \<in> set (parts (clone_with i m0 s)). set (substr p) \<subseteq> set str"
    by (auto simp: parts_clone_with [OF lp] match_part_def)
  with substrs_clone_with [OF n] show ?thesis by simp
qed

lemma sequencesToPattern_all:
  assumes "substrs_ok sequences"
  shows "sequencesToPattern H m sequences True
           = arrayToPattern H
               (map (\<lambda>s. sequencePattern H
                            (map (\<lambda>p. substringsToPattern H m (substr p) 1) (parts s)))
                    sequences)"
proof -
  have "\<And>s. s \<in> set sequences \<Longrightarrow>
          take (Sequence_length s) (substrs s) = map substr (parts s)"
    using assms by (simp add: substrs_ok_def Sequence_length_def)
  then show ?thesis
    by (simp add: sequencesToPattern_def Let_def comp_def cong: map_cong)
qed

text \<open>
  The alternation over the live sequences, as \<open>sequencesToPattern\<close> builds it from their
  parts, matches what the fragments of the texts of the first sequence match.
\<close>

lemma live_alternation:
  assumes pc: "pattern_contract P H" and sc: "substrings_contract H"
    and gm: "good_map P H (unicode_map st)"
    and chars: "\<forall>c \<in> set str. unicode_map st [c] = None \<longrightarrow> c \<notin> set syntax_chars"
    and t: "texts_ok str (h # rest)"
    and keys: "\<forall>g \<in> set (map substr (parts h)). unicode_map st g \<noteq> None"
    and ne: "parts h \<noteq> []"
  shows "arrayToPattern H
           (map (\<lambda>s. sequencePattern H
                        (map (\<lambda>p. substringsToPattern H (unicode_map st) (substr p) 1) (parts s)))
                (h # rest)) \<in> built H
         \<and> covers P st
             (arrayToPattern H
                (map (\<lambda>s. sequencePattern H
                             (map (\<lambda>p. substringsToPattern H (unicode_map st) (substr p) 1)
                                  (parts s)))
                     (h # rest)))
             (map substr (parts h))"
proof -
  let ?m = "unicode_map st"
  let ?tss = "map (\<lambda>s. map substr (parts s)) rest"
  have e: "map (\<lambda>s. sequencePattern H (map (\<lambda>p. substringsToPattern H ?m (substr p) 1) (parts s)))
             (h # rest)
           = map (\<lambda>ts. sequencePattern H (map (\<lambda>t. substringsToPattern H ?m t 1) ts))
               (map substr (parts h) # ?tss)"
    by (simp add: comp_def)
  have ch: "\<forall>ts \<in> set (map substr (parts h) # ?tss). \<forall>t \<in> set ts. \<forall>c \<in> set t.
              ?m [c] = None \<longrightarrow> c \<notin> set syntax_chars"
  proof (intro ballI impI)
    fix ts t c assume ts: "ts \<in> set (map substr (parts h) # ?tss)" and tt: "t \<in> set ts"
      and c: "c \<in> set t" and n: "?m [c] = None"
    from ts obtain s where "s \<in> set (h # rest)" "ts = map substr (parts s)"
      by auto
    with tt t have "set t \<subseteq> set str"
      by (auto simp: texts_ok_def)
    with c chars n show "c \<notin> set syntax_chars" by blast
  qed
  from ne have n': "map substr (parts h) \<noteq> []" by simp
  from alternation_covers [OF pc sc gm ch keys n'] show ?thesis
    unfolding e covers_def fragment_def by blast
qed

lemma covers_append:
  assumes pc: "pattern_contract P H" and p: "p \<in> built H" and q: "q \<in> built H"
    and cp: "covers P st p xs" and cq: "covers P st q ys"
  shows "covers P st (p @ q) (xs @ ys)"
  unfolding covers_def
proof (intro allI impI)
  fix vs assume "list_all2 (\<lambda>g v. fragment_matches P (fragment st g) v) (xs @ ys) vs"
  then obtain us ws where vs: "vs = us @ ws"
    and u: "list_all2 (\<lambda>g v. fragment_matches P (fragment st g) v) xs us"
    and w: "list_all2 (\<lambda>g v. fragment_matches P (fragment st g) v) ys ws"
    by (auto simp: list_all2_append1)
  from cp u have "fragment_matches P p (concat us)"
    by (simp add: covers_def)
  moreover from cq w have "fragment_matches P q (concat ws)"
    by (simp add: covers_def)
  ultimately show "fragment_matches P (p @ q) (concat vs)"
    unfolding vs concat_append by (rule pc_cat [OF pc p q])
qed

lemma greedy_take:
  assumes "k \<le> length (fst (greedy st str i))" and "i \<le> j"
  shows "take k (fst (greedy st str j)) = take k (fst (greedy st str i))"
proof -
  from greedy_mono [OF assms(2)] obtain zs where
    "fst (greedy st str j) = fst (greedy st str i) @ zs"
    by (auto simp: prefix_def)
  with assms(1) show ?thesis by simp
qed

lemma greedy_keys:
  assumes keys: "\<forall>g \<in> set (fst (greedy st str (length str))). unicode_map st g \<noteq> None"
    and i: "i \<le> length str"
  shows "\<forall>g \<in> set (fst (greedy st str i)). unicode_map st g \<noteq> None"
proof -
  from greedy_mono [OF i] have "set (fst (greedy st str i)) \<subseteq> set (fst (greedy st str (length str)))"
    by (rule set_mono_prefix)
  with keys show ?thesis by blast
qed

lemma getPattern_step_inv:
  assumes pc: "pattern_contract P H" and sc: "substrings_contract H"
    and gm: "good_map P H (unicode_map st)" and mo: "matcher_ok st"
    and chars: "\<forall>c \<in> set str. unicode_map st [c] = None \<longrightarrow> c \<notin> set syntax_chars"
    and keys: "\<forall>g \<in> set (fst (greedy st str (length str))). unicode_map st g \<noteq> None"
    and i: "i < length str" and inv: "scan_inv P H st str i acc"
  shows "\<exists>acc'. getPattern_step H st str i acc = Inr acc' \<and> scan_inv P H st str (Suc i) acc'"
proof -
  obtain pattern seqs where acc: "acc = (pattern, seqs)" by (cases acc)
  let ?match = "match_at st str i" and ?char = "take 1 (drop i str)"
  let ?np = "added_part i ?match ?char"
  let ?gs = "fst (greedy st str i)" and ?gs' = "fst (greedy st str (Suc i))"
  let ?ext = "\<lambda>s. if extends_at i s then Sequence_add s ?np else s"
  from inv acc obtain k h rest where seqs: "seqs = h # rest"
    and hk: "head_ok st str i k h" and pb: "pattern \<in> built H"
    and cov: "covers P st pattern (take k ?gs)" and t: "texts_ok str (h # rest)"
    by (auto simp: scan_inv_def)
  from for_sequences_total obtain seqs1 ov1 ad1 where
    f: "for_sequences i ?match ?char seqs [] [] [] = Inr (seqs1, ov1, ad1)"
    by (metis prod_cases3)
  from for_sequences_result [OF f] have
    s1: "seqs1 = map ?ext seqs"
    and o1: "set ov1 \<subseteq> (case ?match of None \<Rightarrow> {}
                          | Some m0 \<Rightarrow> clone_with i m0 ` {s \<in> set seqs. \<not> extends_at i s})"
    by simp_all
  from s1 seqs have s1': "seqs1 = ?ext h # map ?ext rest"
    by simp
  have hk1: "head_ok st str (Suc i) k (?ext h)"
    by (rule head_step [OF mo hk])
  from t have t1: "texts_ok str seqs1"
    unfolding s1 seqs by (rule texts_ok_step [OF mo])
  from hk have kk: "k \<le> length ?gs"
    by (simp add: head_ok_def)
  from cov have cov1: "covers P st pattern (take k ?gs')"
    by (simp add: greedy_take [OF kk, of "Suc i"])
  show ?thesis
  proof (cases "length ov1 > 0")
    case True
    with f acc have step: "getPattern_step H st str i acc
                             = Inr (pattern, push_clones (sort_key Sequence_length ov1) seqs1)"
      by (simp add: getPattern_step_def Let_def)
    from push_clones_prefix obtain ys where
      ys: "push_clones (sort_key Sequence_length ov1) seqs1 = seqs1 @ ys"
      by blast
    from True o1 obtain m0 where m0: "?match = Some m0"
      by (cases ?match) auto
    have tr: "texts_ok str (seqs1 @ ys)"
      unfolding texts_ok_def
    proof
      fix s assume "s \<in> set (seqs1 @ ys)"
      with ys push_clones_set [of "sort_key Sequence_length ov1" seqs1]
      have "s \<in> set seqs1 \<or> s \<in> set ov1"
        by auto
      then show "substrs s = map substr (parts s) \<and> (\<forall>p \<in> set (parts s). set (substr p) \<subseteq> set str)"
      proof
        assume "s \<in> set seqs1"
        with t1 show ?thesis by (simp add: texts_ok_def)
      next
        assume "s \<in> set ov1"
        with o1 m0 obtain s0 where "s = clone_with i m0 s0" "s0 \<in> set seqs" "\<not> extends_at i s0"
          by auto
        with texts_ok_clone [OF mo m0 _ this(2,3)] t seqs show ?thesis
          by simp
      qed
    qed
    have "scan_inv P H st str (Suc i) (pattern, seqs1 @ ys)"
      unfolding scan_inv_def
      by (rule exI [of _ k], rule exI [of _ "?ext h"], rule exI [of _ "map ?ext rest @ ys"])
         (use hk1 pb cov1 tr s1' in simp)
    with step ys show ?thesis by simp
  next
    case False
    then have ov: "ov1 = []" by simp
    show ?thesis
    proof (cases "i > 0 \<and> length ad1 = 1 \<and> Not_adding \<notin> set ad1")
      case c: True
      from f ov have f': "for_sequences i ?match ?char seqs [] [] [] = Inr (seqs1, [], ad1)"
        by simp
      from c have na: "Not_adding \<notin> set ad1" by simp
      from for_sequences_all_extended [OF f' na]
      have e: "\<forall>s \<in> set seqs. extends_at i s"
        and m: "seqs1 = map (\<lambda>s. Sequence_add s ?np) seqs"
        by simp_all
      from e seqs have "extends_at i h" by simp
      with hk have ge: "snd (greedy st str i) \<le> i"
        by (simp add: head_extends)
      let ?emitted = "arrayToPattern H
                        (map (\<lambda>s. sequencePattern H
                                     (map (\<lambda>p. substringsToPattern H (unicode_map st) (substr p) 1)
                                          (parts s)))
                             (h # rest))"
      from t have so: "substrs_ok seqs"
        by (simp add: texts_ok_def substrs_ok_def seqs)
      have em: "sequencesToPattern H (unicode_map st) seqs1 False = ?emitted"
        unfolding m seqs [symmetric] by (rule sequencesToPattern_extended [OF so])
      from m seqs have m': "seqs1 = Sequence_add h ?np # map (\<lambda>s. Sequence_add s ?np) rest"
        by simp
      from f c ov acc have step: "getPattern_step H st str i acc
                  = Inr (pattern @ sequencesToPattern H (unicode_map st) seqs1 False,
                         [Sequence_add new_Sequence ?np])"
        by (simp add: getPattern_step_def Let_def m' Sequence_last_add)
      from c hk have kl: "k < length ?gs"
        by (simp add: head_ok_def)
      from hk have ms: "map substr (parts h) = drop k ?gs"
        by (simp add: head_ok_def)
      with kl have ne: "parts h \<noteq> []"
        by auto
      from greedy_keys [OF keys, of i] i
      have "\<forall>g \<in> set ?gs. unicode_map st g \<noteq> None" by simp
      with set_drop_subset [of k ?gs] ms
      have kh: "\<forall>g \<in> set (map substr (parts h)). unicode_map st g \<noteq> None"
        by auto
      from live_alternation [OF pc sc gm chars t kh ne]
      have eb: "?emitted \<in> built H" and ec: "covers P st ?emitted (drop k ?gs)"
        by (simp_all add: ms)
      from covers_append [OF pc pb eb cov ec]
      have "covers P st (pattern @ ?emitted) ?gs"
        by simp
      moreover have "take (length ?gs) ?gs' = ?gs"
        using greedy_take [of "length ?gs" st str i "Suc i"] by simp
      ultimately have cv: "covers P st (pattern @ ?emitted) (take (length ?gs) ?gs')"
        by simp
      from pb eb have nb: "pattern @ ?emitted \<in> built H"
        by (rule built.concatenation)
      have nh: "head_ok st str (Suc i) (length ?gs) (Sequence_add new_Sequence ?np)"
        by (rule compacted_head [OF mo ge])
      have nt: "texts_ok str [Sequence_add new_Sequence ?np]"
        using added_part_facts(5) [OF mo, of i str]
        by (simp add: texts_ok_def parts_Sequence_add substrs_Sequence_add new_Sequence_def)
      have "scan_inv P H st str (Suc i) (pattern @ ?emitted, [Sequence_add new_Sequence ?np])"
        unfolding scan_inv_def
        by (rule exI [of _ "length ?gs"], rule exI [of _ "Sequence_add new_Sequence ?np"],
            rule exI [of _ "[]"])
           (use nh nb cv nt in simp)
      with step em show ?thesis by simp
    next
      case c: False
      with f ov acc have step: "getPattern_step H st str i acc = Inr (pattern, seqs1)"
        by (auto simp: getPattern_step_def Let_def)
      have "scan_inv P H st str (Suc i) (pattern, seqs1)"
        unfolding scan_inv_def
        by (rule exI [of _ k], rule exI [of _ "?ext h"], rule exI [of _ "map ?ext rest"])
           (use hk1 pb cov1 t1 s1' in simp)
      with step show ?thesis by simp
    qed
  qed
qed

text \<open>The fragments of the map that \<open>generateMap\<close> builds, under the contracts.\<close>

lemma generateMap_fragments:
  assumes c: "regex_contract P H" and b: "generateMap P H code_points = Inr st"
    and k: "unicode_map st k = Some f"
  shows "\<exists>S. f = setToPattern H S \<and> S \<noteq> [] \<and> escaped_variants H S \<and> k \<noteq> []
             \<and> fragment_matches P f k
             \<and> (\<forall>e \<in> set (generator P code_points).
                   folded e = k \<longrightarrow> fragment_matches P f (composed e))"
proof -
  let ?vs = "generator P code_points"
  from b obtain sets where s: "generateSets P H code_points = Inr sets"
    and u: "unicode_map st = map_of (map (\<lambda>(fld, s). (fld, setToPattern H s)) sets)"
    by (rule generateMap_Inr)
  from s have run: "generateSets_loop P H ?vs [] = Inr sets"
    by (simp add: generateSets_def)
  have ne: "\<forall>v \<in> set ?vs \<union> {}. folded v \<noteq> [] \<and> composed v \<noteq> []"
    using generator_nonempty by blast
  from generateSets_loop_inv [OF c run ne] have
    ok: "sets_ok P H sets" and vm: "\<forall>v \<in> set ?vs. variants_match P H sets v"
    by (simp_all add: sets_ok_def)
  from k u obtain S where S: "map_of sets k = Some S" "f = setToPattern H S"
    by (auto simp: map_of_map)
  then have v: "variants sets k = S"
    by (simp add: variants_def)
  from S ok have 1: "S \<noteq> []" "escaped_variants H S"
    by (simp_all add: sets_ok_def)
  from k generateMap_keys [OF b, of k] obtain w where w: "w \<in> set ?vs" "folded w = k"
    by auto
  with generator_nonempty have 2: "k \<noteq> []" by blast
  from w vm v S have 3: "fragment_matches P f k"
    by (auto simp: variants_match_def)
  from vm v S have 4: "\<forall>e \<in> set ?vs. folded e = k \<longrightarrow> fragment_matches P f (composed e)"
    by (auto simp: variants_match_def)
  from S 1 2 3 4 show ?thesis by blast
qed

lemma generateMap_good_map:
  assumes c: "regex_contract P H" and pc: "pattern_contract P H"
    and b: "generateMap P H code_points = Inr st"
  shows "good_map P H (unicode_map st)"
  unfolding good_map_def
proof (intro allI impI)
  fix k f assume "unicode_map st k = Some f"
  from generateMap_fragments [OF c b this] obtain S where
    "f = setToPattern H S" "S \<noteq> []" "escaped_variants H S" "k \<noteq> []" "fragment_matches P f k"
    by blast
  with pc_variants [OF pc this(3,2)] built.variants [OF this(3,2)]
  show "k \<noteq> [] \<and> f \<noteq> [] \<and> f \<in> built H \<and> fragment_matches P f k"
    by simp
qed

lemma generateMap_matcher_ok:
  assumes "matcher_contract P H" and "generateMap P H code_points = Inr st"
    and "multi_char_keys st \<noteq> {}"
  shows "matcher_ok st"
  unfolding matcher_ok_def using generateMap_matcher [OF assms] by blast

lemma getPattern_loop_inv:
  assumes pc: "pattern_contract P H" and sc: "substrings_contract H"
    and gm: "good_map P H (unicode_map st)" and mo: "matcher_ok st"
    and chars: "\<forall>c \<in> set str. unicode_map st [c] = None \<longrightarrow> c \<notin> set syntax_chars"
    and keys: "\<forall>g \<in> set (fst (greedy st str (length str))). unicode_map st g \<noteq> None"
  shows "n \<le> length str \<Longrightarrow>
           \<exists>acc. getPattern_loop H st str [0..<n] ([], [new_Sequence]) = Inr acc
                 \<and> scan_inv P H st str n acc"
proof (induction n)
  case 0
  have "head_ok st str 0 0 new_Sequence"
    by (simp add: head_ok_def new_Sequence_def)
  moreover have "covers P st [] (take 0 (fst (greedy st str 0)))"
    by (simp add: covers_def pc_empty [OF pc])
  moreover have "texts_ok str [new_Sequence]"
    by (simp add: texts_ok_def new_Sequence_def)
  ultimately have "scan_inv P H st str 0 ([], [new_Sequence])"
    unfolding scan_inv_def
    by (intro exI [of _ 0] exI [of _ new_Sequence] exI [of _ "[]"]) (simp add: built.empty)
  then show ?case by simp
next
  case (Suc n)
  then obtain acc where l: "getPattern_loop H st str [0..<n] ([], [new_Sequence]) = Inr acc"
    and inv: "scan_inv P H st str n acc"
    by auto
  from Suc.prems have "n < length str" by simp
  from getPattern_step_inv [OF pc sc gm mo chars keys this inv] obtain acc' where
    "getPattern_step H st str n acc = Inr acc'" "scan_inv P H st str (Suc n) acc'"
    by blast
  with l show ?case
    by (simp add: getPattern_loop_append)
qed

text \<open>The path of the scan.\<close>

lemma scan_path_covers:
  assumes pc: "pattern_contract P H" and sc: "substrings_contract H"
    and gm: "good_map P H (unicode_map st)" and mo: "matcher_ok st"
    and chars: "\<forall>c \<in> set str. unicode_map st [c] = None \<longrightarrow> c \<notin> set syntax_chars"
    and keys: "\<forall>g \<in> set (fst (greedy st str (length str))). unicode_map st g \<noteq> None"
    and ne: "str \<noteq> []"
  shows "\<exists>pattern sequences.
           getPattern_loop H st str [0..<length str] ([], [new_Sequence]) = Inr (pattern, sequences)
           \<and> pattern @ sequencesToPattern H (unicode_map st) sequences True \<in> built H
           \<and> covers P st (pattern @ sequencesToPattern H (unicode_map st) sequences True)
               (fst (greedy st str (length str)))"
proof -
  let ?n = "length str"
  let ?gs = "fst (greedy st str ?n)"
  from getPattern_loop_inv [OF pc sc gm mo chars keys, of ?n] obtain pattern seqs where
    l: "getPattern_loop H st str [0..<?n] ([], [new_Sequence]) = Inr (pattern, seqs)"
    and inv: "scan_inv P H st str ?n (pattern, seqs)"
    by auto
  from inv obtain k h rest where seqs: "seqs = h # rest"
    and hk: "head_ok st str ?n k h" and pb: "pattern \<in> built H"
    and cov: "covers P st pattern (take k ?gs)" and t: "texts_ok str (h # rest)"
    by (auto simp: scan_inv_def)
  let ?emitted = "arrayToPattern H
                    (map (\<lambda>s. sequencePattern H
                                 (map (\<lambda>p. substringsToPattern H (unicode_map st) (substr p) 1)
                                      (parts s)))
                         (h # rest))"
  from t have so: "substrs_ok seqs"
    by (simp add: texts_ok_def substrs_ok_def seqs)
  have em: "sequencesToPattern H (unicode_map st) seqs True = ?emitted"
    unfolding seqs [symmetric] by (rule sequencesToPattern_all [OF so])
  from ne hk have kl: "k < length ?gs"
    by (simp add: head_ok_def)
  from hk have ms: "map substr (parts h) = drop k ?gs"
    by (simp add: head_ok_def)
  with kl have pne: "parts h \<noteq> []"
    by auto
  from keys set_drop_subset [of k ?gs] ms
  have kh: "\<forall>g \<in> set (map substr (parts h)). unicode_map st g \<noteq> None"
    by auto
  from live_alternation [OF pc sc gm chars t kh pne]
  have eb: "?emitted \<in> built H" and ec: "covers P st ?emitted (drop k ?gs)"
    by (simp_all add: ms)
  from covers_append [OF pc pb eb cov ec]
  have "covers P st (pattern @ ?emitted) ?gs"
    by simp
  moreover from pb eb have "pattern @ ?emitted \<in> built H"
    by (rule built.concatenation)
  ultimately show ?thesis
    using l em by auto
qed

text \<open>The path without a multi-character key.\<close>

lemma Array_from_runs:
  "run \<in> set (Array_from s) \<Longrightarrow>
     (\<exists>c. run = [c] \<and> c \<in> set s) \<or> (\<exists>c d. run = [c, d] \<and> 0xD800 \<le> c \<and> 0xDC00 \<le> d)"
  by (induction s rule: Array_from.induct) (auto split: if_splits)

lemma literal_built:
  assumes pc: "pattern_contract P H"
  shows "\<forall>c \<in> set w. c \<notin> set syntax_chars \<Longrightarrow> w \<in> built H \<and> fragment_matches P w w"
proof (induction w)
  case Nil
  show ?case by (simp add: built.empty pc_empty [OF pc])
next
  case (Cons c w)
  then have c: "c \<notin> set syntax_chars" and w: "w \<in> built H" "fragment_matches P w w"
    by simp_all
  from c have l: "[c] \<in> built H" by (rule built.literal)
  from built.concatenation [OF l w(1)] pc_cat [OF pc l w(1) pc_literal [OF pc c] w(2)]
  show ?case by simp
qed

lemma surrogate_not_syntax:
  "(0xD800 :: 16 word) \<le> c \<Longrightarrow> c \<notin> set syntax_chars"
  "(0xDC00 :: 16 word) \<le> d \<Longrightarrow> d \<notin> set syntax_chars"
  by (auto simp: syntax_chars_iff)

lemma unmapped_run_literal:
  assumes pc: "pattern_contract P H"
    and chars: "\<forall>c \<in> set str. m [c] = None \<longrightarrow> c \<notin> set syntax_chars"
    and run: "run \<in> set (Array_from str)" and n: "m run = None"
  shows "run \<in> built H \<and> fragment_matches P run run"
proof (rule literal_built [OF pc])
  from Array_from_runs [OF run] show "\<forall>c \<in> set run. c \<notin> set syntax_chars"
  proof
    assume "\<exists>c. run = [c] \<and> c \<in> set str"
    with chars n show ?thesis by auto
  next
    assume "\<exists>c d. run = [c, d] \<and> 0xD800 \<le> c \<and> 0xDC00 \<le> d"
    then show ?thesis by (auto simp: surrogate_not_syntax)
  qed
qed

lemma simple_path_covers:
  assumes pc: "pattern_contract P H" and gm: "good_map P H (unicode_map st)"
    and chars: "\<forall>c \<in> set str. unicode_map st [c] = None \<longrightarrow> c \<notin> set syntax_chars"
  shows "mapSequence H (unicode_map st) (Array_from str) 0
           = Some (sequencePattern H
                     (map (\<lambda>run. Some (fst (mapSequence_callback (unicode_map st) run)))
                          (Array_from str)))
         \<and> sequencePattern H
             (map (\<lambda>run. Some (fst (mapSequence_callback (unicode_map st) run))) (Array_from str))
             \<in> built H
         \<and> covers P st
             (sequencePattern H
                (map (\<lambda>run. Some (fst (mapSequence_callback (unicode_map st) run)))
                     (Array_from str)))
             (Array_from str)"
proof -
  let ?p = "sequencePattern H
              (map (\<lambda>run. Some (fst (mapSequence_callback (unicode_map st) run))) (Array_from str))"
  have r: "mapSequence H (unicode_map st) (Array_from str) 0 = Some ?p"
    by (simp add: mapSequence_eq)
  have lits: "\<forall>run \<in> set (Array_from str). unicode_map st run = None \<longrightarrow> run \<in> built H"
    using unmapped_run_literal [OF pc chars] by blast
  from mapSequence_built [OF gm lits r] have "?p \<in> built H" .
  moreover have "covers P st ?p (Array_from str)"
    unfolding covers_def fragment_def
    using mapSequence_covers [OF pc gm lits r] by blast
  ultimately show ?thesis using r by simp
qed

text \<open>Every text of the segmentation is matched by its own fragment.\<close>

lemma fragment_matches_self:
  assumes pc: "pattern_contract P H" and gm: "good_map P H (unicode_map st)"
    and g: "unicode_map st g \<noteq> None \<or> (g \<in> built H \<and> fragment_matches P g g)"
  shows "fragment_matches P (fragment st g) g"
proof (cases "unicode_map st g")
  case None
  with g show ?thesis
    by (simp add: fragment_def mapSequence_callback_None)
next
  case (Some f)
  with gm show ?thesis
    by (simp add: fragment_def good_map_fragment) (simp add: good_map_def)
qed

subsection \<open>From the fold of the input to the input\<close>

lemma variant_fragment:
  assumes c: "regex_contract P H" and pc: "pattern_contract P H"
    and b: "generateMap P H code_points = Inr st"
    and self: "fragment_matches P (fragment st g) g"
    and v: "variant_of P code_points st g v"
  shows "fragment_matches P (fragment st g) v"
proof (cases "v = g")
  case True
  with self show ?thesis by simp
next
  case False
  with v obtain f e where f: "unicode_map st g = Some f"
    and e: "e \<in> set (generator P code_points)" "folded e = g" "composed e = v"
    by (auto simp: variant_of_def)
  from generateMap_fragments [OF c b f] e have "fragment_matches P f v"
    by blast
  with f generateMap_good_map [OF c pc b] show ?thesis
    by (simp add: fragment_def good_map_fragment)
qed

lemma covers_conclusions:
  assumes c: "regex_contract P H" and pc: "pattern_contract P H"
    and b: "generateMap P H code_points = Inr st"
    and pb: "p \<in> built H" and cov: "covers P st p segs"
    and self: "\<forall>g \<in> set segs. fragment_matches P (fragment st g) g"
  shows "(\<forall>vs. list_all2 (\<lambda>g v. fragment_matches P (fragment st g) v) segs vs
            \<longrightarrow> fragment_matches P p (concat vs) \<and> pattern_matches P p (concat vs))
         \<and> (\<forall>vs. list_all2 (variant_of P code_points st) segs vs
            \<longrightarrow> fragment_matches P p (concat vs) \<and> pattern_matches P p (concat vs))
         \<and> fragment_matches P p (concat segs) \<and> pattern_matches P p (concat segs)"
proof -
  have 1: "\<And>vs. list_all2 (\<lambda>g v. fragment_matches P (fragment st g) v) segs vs
            \<Longrightarrow> fragment_matches P p (concat vs) \<and> pattern_matches P p (concat vs)"
  proof -
    fix vs assume "list_all2 (\<lambda>g v. fragment_matches P (fragment st g) v) segs vs"
    with cov have "fragment_matches P p (concat vs)"
      by (simp add: covers_def)
    with pc_search [OF pc pb] show "fragment_matches P p (concat vs) \<and> pattern_matches P p (concat vs)"
      by simp
  qed
  have 2: "\<And>vs. list_all2 (variant_of P code_points st) segs vs
            \<Longrightarrow> fragment_matches P p (concat vs) \<and> pattern_matches P p (concat vs)"
  proof -
    fix vs assume "list_all2 (variant_of P code_points st) segs vs"
    then have "list_all2 (\<lambda>g v. fragment_matches P (fragment st g) v) segs vs"
    proof (rule list.rel_mono_strong)
      fix g v assume "g \<in> set segs" "variant_of P code_points st g v"
      with self variant_fragment [OF c pc b] show "fragment_matches P (fragment st g) v"
        by blast
    qed
    then show "fragment_matches P p (concat vs) \<and> pattern_matches P p (concat vs)"
      by (rule 1)
  qed
  from self have "list_all2 (\<lambda>g v. fragment_matches P (fragment st g) v) segs segs"
    by (simp add: list_all2_same)
  from 1 [OF this] 1 2 show ?thesis by blast
qed

text \<open>
  Claim C2, amended. Let the map have a multi-character key, let every syntax character
  of the folded input \<open>fold(s)\<close> be a key of the map and, when \<open>fold(s)\<close> contains a
  multi-character key, let every text of its segmentation (from left to right, the
  multi-character key that the matcher finds at a free position, or else the single code
  unit) be a key of the map. Then \<open>getPattern(s)\<close> returns a pattern; the texts that it maps
  (the code points of \<open>fold(s)\<close> when no multi-character key occurs in it, the segmentation
  otherwise) make up \<open>fold(s)\<close>; and the pattern, compiled with the flags \<open>iu\<close>, matches
  every concatenation of strings that the fragments of these texts match in turn: so it
  matches \<open>fold(s)\<close>, and every string that has, for each text, the text itself or a
  character that the map builder registered for it, hence \<open>s\<close> itself when \<open>s\<close> is such a
  string. The helpers of regex.mjs and strings.mjs and the engine are taken under their
  contracts. Nothing is stated for a character that the map builder skipped, nor for a
  single character without map entry that the scan leaves between multi-character keys.
\<close>

theorem getPattern_matches_folded:
  assumes c: "regex_contract P H" and mc: "matcher_contract P H"
    and pc: "pattern_contract P H" and sc: "substrings_contract H"
    and b: "generateMap P H code_points = Inr st"
    and ne: "multi_char_keys st \<noteq> {}"
    and syn: "\<forall>c \<in> set (asciifold P input).
                c \<in> set syntax_chars \<longrightarrow> unicode_map st [c] \<noteq> None"
    and left: "(\<exists>k \<in> multi_char_keys st. sublist k (asciifold P input))
                 \<longrightarrow> (\<forall>g \<in> set (segmentation st (asciifold P input)). unicode_map st g \<noteq> None)"
  shows "(multi_char_reg st (asciifold P input) = None
            \<longleftrightarrow> (\<forall>k \<in> multi_char_keys st. \<not> sublist k (asciifold P input)))
         \<and> (\<exists>p. getPattern P H code_points None input = Inr (Some p, st)
             \<and> concat (segmentation st (asciifold P input)) = asciifold P input
             \<and> (\<forall>vs. list_all2 (\<lambda>g v. fragment_matches P (fragment st g) v)
                       (segmentation st (asciifold P input)) vs
                   \<longrightarrow> fragment_matches P p (concat vs) \<and> pattern_matches P p (concat vs))
             \<and> (\<forall>vs. list_all2 (variant_of P code_points st)
                       (segmentation st (asciifold P input)) vs
                   \<longrightarrow> fragment_matches P p (concat vs) \<and> pattern_matches P p (concat vs))
             \<and> fragment_matches P p (asciifold P input)
             \<and> pattern_matches P p (asciifold P input))"
proof -
  let ?str = "asciifold P input" and ?m = "unicode_map st"
  have gm: "good_map P H ?m"
    by (rule generateMap_good_map [OF c pc b])
  have mo: "matcher_ok st"
    by (rule generateMap_matcher_ok [OF mc b ne])
  from syn have chars: "\<forall>c \<in> set ?str. ?m [c] = None \<longrightarrow> c \<notin> set syntax_chars"
    by blast
  have gd: "multi_char_reg st ?str = None \<longleftrightarrow> (\<forall>k \<in> multi_char_keys st. \<not> sublist k ?str)"
    by (rule generateMap_guard [OF mc b ne])
  have "\<exists>p. getPattern P H code_points None input = Inr (Some p, st)
              \<and> concat (segmentation st (asciifold P input)) = asciifold P input
              \<and> (\<forall>vs. list_all2 (\<lambda>g v. fragment_matches P (fragment st g) v)
                        (segmentation st (asciifold P input)) vs
                    \<longrightarrow> fragment_matches P p (concat vs) \<and> pattern_matches P p (concat vs))
              \<and> (\<forall>vs. list_all2 (variant_of P code_points st)
                        (segmentation st (asciifold P input)) vs
                    \<longrightarrow> fragment_matches P p (concat vs) \<and> pattern_matches P p (concat vs))
              \<and> fragment_matches P p (asciifold P input)
              \<and> pattern_matches P p (asciifold P input)"
  proof (cases "multi_char_reg st ?str = None")
    case True
    let ?p = "sequencePattern H
                (map (\<lambda>run. Some (fst (mapSequence_callback ?m run))) (Array_from ?str))"
    from True have seg: "segmentation st ?str = Array_from ?str"
      by (simp add: segmentation_def)
    from simple_path_covers [OF pc gm chars] have
      r: "mapSequence H ?m (Array_from ?str) 0 = Some ?p"
      and pb: "?p \<in> built H" and cov: "covers P st ?p (Array_from ?str)"
      by simp_all
    from True b r have g: "getPattern P H code_points None input = Inr (Some ?p, st)"
      by (simp add: getPattern_def initialize_def getPattern_body_def Let_def)
    have self: "\<forall>g \<in> set (Array_from ?str). fragment_matches P (fragment st g) g"
    proof
      fix g assume "g \<in> set (Array_from ?str)"
      with unmapped_run_literal [OF pc chars]
      have "?m g \<noteq> None \<or> (g \<in> built H \<and> fragment_matches P g g)"
        by blast
      then show "fragment_matches P (fragment st g) g"
        by (rule fragment_matches_self [OF pc gm])
    qed
    from covers_conclusions [OF c pc b pb cov self] g show ?thesis
      unfolding seg by (simp add: concat_Array_from)
  next
    case False
    let ?n = "length ?str"
    from False have seg: "segmentation st ?str = fst (greedy st ?str ?n)"
      by (auto simp: segmentation_def)
    from False gd have occ: "\<exists>k \<in> multi_char_keys st. sublist k ?str"
      by simp
    with left seg have keys: "\<forall>g \<in> set (fst (greedy st ?str ?n)). ?m g \<noteq> None"
      by simp
    from occ obtain k where "k \<in> multi_char_keys st" "sublist k ?str"
      by blast
    then have sne: "?str \<noteq> []"
      by (auto simp: multi_char_keys_def)
    from scan_path_covers [OF pc sc gm mo chars keys sne] obtain pattern sequences where
      l: "getPattern_loop H st ?str [0..<?n] ([], [new_Sequence]) = Inr (pattern, sequences)"
      and pb: "pattern @ sequencesToPattern H ?m sequences True \<in> built H"
      and cov: "covers P st (pattern @ sequencesToPattern H ?m sequences True)
                  (fst (greedy st ?str ?n))"
      by blast
    from False b l have g: "getPattern P H code_points None input
                    = Inr (Some (pattern @ sequencesToPattern H ?m sequences True), st)"
      by (auto simp: getPattern_def initialize_def getPattern_body_def Let_def)
    have self: "\<forall>g \<in> set (fst (greedy st ?str ?n)). fragment_matches P (fragment st g) g"
    proof
      fix g assume "g \<in> set (fst (greedy st ?str ?n))"
      with keys have "?m g \<noteq> None \<or> (g \<in> built H \<and> fragment_matches P g g)"
        by blast
      then show "fragment_matches P (fragment st g) g"
        by (rule fragment_matches_self [OF pc gm])
    qed
    from greedy_bounds [OF mo, of ?n ?str]
    have cc: "concat (fst (greedy st ?str ?n)) = ?str"
      by simp
    from covers_conclusions [OF c pc b pb cov self] g show ?thesis
      unfolding seg cc by simp
  qed
  with gd show ?thesis
    by (rule conjI)
qed

subsection \<open>The helpers and the regular-expression fragment meet the contracts\<close>

lemma spec_allSubstrings_sound:
  "sub \<in> set (spec_allSubstrings s) \<Longrightarrow> concat sub = s \<and> [] \<notin> set sub"
proof (induction s arbitrary: sub rule: spec_allSubstrings.induct)
  case 1
  then show ?case by simp
next
  case (2 c)
  then show ?case by simp
next
  case (3 c d cs)
  from "3.prems" obtain sub0 where s0: "sub0 \<in> set (spec_allSubstrings (d # cs))"
    and sub: "sub \<in> set (case sub0 of [] \<Rightarrow> [[[c]]] | p # ps \<Rightarrow> [(c # p) # ps, [c] # p # ps])"
    by auto
  from "3.IH" [OF s0] have c0: "concat sub0 = d # cs" and n0: "[] \<notin> set sub0"
    by simp_all
  from c0 obtain p ps where "sub0 = p # ps"
    by (cases sub0) auto
  with sub c0 n0 show ?case
    by auto
qed

lemma spec_allSubstrings_complete:
  "concat sub = s \<Longrightarrow> [] \<notin> set sub \<Longrightarrow> sub \<in> set (spec_allSubstrings s)"
proof (induction s arbitrary: sub rule: spec_allSubstrings.induct)
  case 1
  then have "sub = []"
    by (cases sub) auto
  then show ?case by simp
next
  case (2 c)
  then obtain p ps where s: "sub = p # ps" "p \<noteq> []"
    by (cases sub) auto
  with "2.prems" have "p = [c]" "concat ps = []"
    by (auto simp: append_eq_Cons_conv)
  with "2.prems" s have "ps = []"
    by (cases ps) auto
  with s \<open>p = [c]\<close> show ?case by simp
next
  case (3 c d cs)
  from "3.prems" obtain p ps where s: "sub = p # ps" "p \<noteq> []"
    by (cases sub) auto
  with "3.prems" obtain p' where p: "p = c # p'" and r: "p' @ concat ps = d # cs"
    by (cases p) auto
  show ?case
  proof (cases "p' = []")
    case True
    with r have cp: "concat ps = d # cs" by simp
    from "3.prems" s have np: "[] \<notin> set ps" by simp
    from "3.IH" [OF cp np] have i: "ps \<in> set (spec_allSubstrings (d # cs))" .
    from cp obtain q qs where q: "ps = q # qs"
      by (cases ps) auto
    have "sub \<in> set (case ps of [] \<Rightarrow> [[[c]]] | p # ps \<Rightarrow> [(c # p) # ps, [c] # p # ps])"
      using s p True q by simp
    with i show ?thesis
      by (simp only: spec_allSubstrings.simps set_concat set_map) blast
  next
    case False
    let ?sub0 = "p' # ps"
    from r have cp: "concat ?sub0 = d # cs" by simp
    from "3.prems" s False have np: "[] \<notin> set ?sub0" by simp
    from "3.IH" [OF cp np] have i: "?sub0 \<in> set (spec_allSubstrings (d # cs))" .
    have "sub \<in> set (case ?sub0 of [] \<Rightarrow> [[[c]]] | p # ps \<Rightarrow> [(c # p) # ps, [c] # p # ps])"
      using s p by simp
    with i show ?thesis
      by (simp only: spec_allSubstrings.simps set_concat set_map) blast
  qed
qed

lemma substrings_contract_spec: "substrings_contract spec_helpers"
  unfolding substrings_contract_def
  using spec_allSubstrings_sound spec_allSubstrings_complete
  by (auto simp: spec_helpers_def)

lemma units_parse:
  "units_rx p rs \<Longrightarrow>
     rx_parse (p @ rest) (a, cur) stack = rx_parse rest (a, foldl Seq cur rs) stack"
  by (simp add: units_rx_def)

lemma units_empty: "units_rx [] []"
  by (simp add: units_rx_def)

lemma units_literal: "c \<notin> set syntax_chars \<Longrightarrow> units_rx [c] [Chr c]"
  by (simp add: units_rx_def rx_parse_plain del: rx_parse.simps)

lemma lit_rx_foldl: "lit_rx y cur = foldl Seq cur (map Chr y)"
  by (simp add: lit_rx_def foldl_map)

lemma units_escaped: "units_rx (spec_escape_regex y) (map Chr y)"
  by (simp add: units_rx_def rx_parse_escape lit_rx_foldl del: rx_parse.simps)

lemma units_append:
  assumes "units_rx p rs" and "units_rx q rs'"
  shows "units_rx (p @ q) (rs @ rs')"
  using assms by (auto simp: units_rx_def)

lemma units_concat: "list_all2 units_rx ps rss \<Longrightarrow> units_rx (concat ps) (concat rss)"
  by (induction ps rss rule: list_all2_induct) (simp_all add: units_empty units_append)

lemma anchor_free_foldl_Seq:
  "anchor_free cur \<Longrightarrow> \<forall>r \<in> set rs. anchor_free r \<Longrightarrow> anchor_free (foldl Seq cur rs)"
  by (induction rs arbitrary: cur) simp_all

lemma anchor_free_foldl_Alt:
  "anchor_free A \<Longrightarrow> \<forall>r \<in> set Bs. anchor_free r \<Longrightarrow> anchor_free (foldl Alt A Bs)"
  by (induction Bs arbitrary: A) simp_all

lemma lang_foldl_Alt: "lang canon (foldl Alt A Bs) = lang canon A \<union> (\<Union>B \<in> set Bs. lang canon B)"
  by (induction Bs arbitrary: A) auto

lemma lang_foldl_Seq_snoc:
  "lang canon (foldl Seq cur (rs @ [r]))
     = {u @ v | u v. u \<in> lang canon (foldl Seq cur rs) \<and> v \<in> lang canon r}"
  by simp

lemma lang_foldl_Seq:
  "lang canon (foldl Seq cur rs)
     = {u @ v | u v. u \<in> lang canon cur \<and> v \<in> lang canon (foldl Seq Eps rs)}"
proof (induction rs rule: rev_induct)
  case Nil
  show ?case by simp
next
  case (snoc r rs)
  show ?case
  proof (rule set_eqI, rule iffI)
    fix x assume "x \<in> lang canon (foldl Seq cur (rs @ [r]))"
    then obtain u v where x: "x = u @ v" "u \<in> lang canon (foldl Seq cur rs)" "v \<in> lang canon r"
      by auto
    with snoc.IH obtain u1 u2 where u: "u = u1 @ u2" "u1 \<in> lang canon cur"
      "u2 \<in> lang canon (foldl Seq Eps rs)"
      by auto
    with x have "u2 @ v \<in> lang canon (foldl Seq Eps (rs @ [r]))"
      by auto
    with x u show "x \<in> {u @ v | u v. u \<in> lang canon cur
                          \<and> v \<in> lang canon (foldl Seq Eps (rs @ [r]))}"
      by (intro CollectI exI [of _ u1] exI [of _ "u2 @ v"]) simp
  next
    fix x assume "x \<in> {u @ v | u v. u \<in> lang canon cur
                          \<and> v \<in> lang canon (foldl Seq Eps (rs @ [r]))}"
    then obtain u w where x: "x = u @ w" "u \<in> lang canon cur"
      "w \<in> lang canon (foldl Seq Eps (rs @ [r]))"
      by auto
    then obtain w1 v where w: "w = w1 @ v" "w1 \<in> lang canon (foldl Seq Eps rs)" "v \<in> lang canon r"
      by auto
    with x snoc.IH have "u @ w1 \<in> lang canon (foldl Seq cur rs)"
      by auto
    with x w show "x \<in> lang canon (foldl Seq cur (rs @ [r]))"
      by (simp only: lang_foldl_Seq_snoc) (intro CollectI exI [of _ "u @ w1"] exI [of _ v], simp)
  qed
qed

lemma lang_foldl_Seq_append:
  "lang canon (foldl Seq Eps (rs @ rs'))
     = {u @ v | u v. u \<in> lang canon (foldl Seq Eps rs) \<and> v \<in> lang canon (foldl Seq Eps rs')}"
  by (simp only: foldl_append) (rule lang_foldl_Seq)

text \<open>The strings that a pattern read as units matches as a whole.\<close>

lemma rx_match_foldl_Seq:
  "rx_match canon (foldl Seq cur rs) at s k
     = rx_match canon cur at s (\<lambda>at' s'. rx_match canon (foldl Seq Eps rs) at' s' k)"
  by (induction rs arbitrary: k rule: rev_induct) simp_all

lemma rx_match_units_bol:
  "rx_match canon (foldl Seq (Seq Eps Bol) rs) at s k
     = (if at then rx_match canon (foldl Seq Eps rs) True s k else None)"
  by (subst rx_match_foldl_Seq) simp

lemma units_fragment_matches:
  assumes "units_rx p rs"
  shows "fragment_matches frag_platform p x = (x \<in> lang ascii_fold (foldl Seq Eps rs))"
proof -
  let ?B = "foldl Seq Eps rs"
  let ?R = "Seq (foldl Seq (Seq Eps Bol) rs) Eol"
  from assms have af: "anchor_free ?B"
    by (simp add: units_rx_def anchor_free_foldl_Seq)
  have p: "rx_parse (0x5E # p @ [0x24]) (None, Eps) [] = Some ?R"
    by (simp only: rx_parse_bol fst_conv snd_conv units_parse [OF assms] rx_parse_eol
          rx_parse.simps(1))
       (simp add: close_frame_def)
  have "(rx_search ascii_fold ?R 0 x \<noteq> None)
          = (rx_match ascii_fold ?R True x (\<lambda>_ rest. Some rest) \<noteq> None)"
    by (rule rx_search_0) (simp add: rx_match_units_bol)
  also have "\<dots> = (rx_match ascii_fold ?B True x (\<lambda>at' s'. if s' = [] then Some s' else None)
                      \<noteq> None)"
    by (simp add: rx_match_units_bol)
  also have "\<dots> = (\<exists>u v. x = u @ v \<and> u \<in> lang ascii_fold ?B
                      \<and> (if v = [] then Some v else None) \<noteq> None)"
    by (rule rx_match_lang [OF af])
  also have "\<dots> = (x \<in> lang ascii_fold ?B)"
    by auto
  finally show ?thesis
    unfolding fragment_matches_frag p option.case .
qed

lemma units_pattern_matches:
  assumes "units_rx p rs" and "x \<in> lang ascii_fold (foldl Seq Eps rs)"
  shows "pattern_matches frag_platform p x"
proof -
  let ?B = "foldl Seq Eps rs"
  from assms(1) have af: "anchor_free ?B"
    by (simp add: units_rx_def anchor_free_foldl_Seq)
  have p: "rx_parse p (None, Eps) [] = Some ?B"
    using units_parse [OF assms(1), of "[]" None Eps "[]"] by (simp add: close_frame_def)
  from assms(2) have "rx_match ascii_fold ?B True x (\<lambda>_ rest. Some rest) \<noteq> None"
    unfolding rx_match_lang [OF af] by auto
  then have "rx_search ascii_fold ?B 0 x \<noteq> None"
    by (cases x) (auto split: option.splits)
  then show ?thesis
    by (simp add: pattern_matches_def frag_platform_def frag_RegExp_def p)
qed

lemma rx_parse_group_alternatives:
  "list_all2 units_rx (p # ps) (rs # rss) \<Longrightarrow>
   rx_parse (join_bar (p # ps) @ 0x29 # rest) (a0, Eps) (g # stack)
     = rx_parse rest
         (fst g, Seq (snd g) (foldl Alt (close_frame (a0, foldl Seq Eps rs))
                                (map (foldl Seq Eps) rss))) stack"
proof (induction ps arbitrary: p rs rss a0)
  case Nil
  then have u: "units_rx p rs" and r: "rss = []"
    by simp_all
  show ?case
    unfolding r
    by (simp only: join_bar.simps units_parse [OF u] rx_parse_close list.map foldl.simps
          fst_conv snd_conv)
next
  case (Cons p' ps)
  from Cons.prems obtain rs' rss' where r: "rss = rs' # rss'" and u: "units_rx p rs"
    and l: "list_all2 units_rx (p' # ps) (rs' # rss')"
    by (cases rss) auto
  have "rx_parse (join_bar (p # p' # ps) @ 0x29 # rest) (a0, Eps) (g # stack)
        = rx_parse (join_bar (p' # ps) @ 0x29 # rest)
            (Some (close_frame (a0, foldl Seq Eps rs)), Eps) (g # stack)"
    by (simp only: join_bar_Cons2 append_assoc append.simps units_parse [OF u] rx_parse_bar)
  also have "\<dots> = rx_parse rest
        (fst g, Seq (snd g)
           (foldl Alt (close_frame (Some (close_frame (a0, foldl Seq Eps rs)), foldl Seq Eps rs'))
              (map (foldl Seq Eps) rss'))) stack"
    by (rule Cons.IH [OF l])
  finally show ?case
    unfolding r by (simp add: close_frame_def)
qed

lemma units_anchor_free:
  "list_all2 units_rx ps rss \<Longrightarrow> \<forall>r \<in> set (map (foldl Seq Eps) rss). anchor_free r"
  by (induction ps rss rule: list_all2_induct)
     (simp_all add: units_rx_def anchor_free_foldl_Seq)

lemma units_group:
  assumes "list_all2 units_rx (p # ps) (rs # rss)"
  shows "units_rx (ustr ''(?:'' @ join_bar (p # ps) @ ustr '')'')
           [foldl Alt (foldl Seq Eps rs) (map (foldl Seq Eps) rss)]"
proof -
  from assms have af: "\<forall>r \<in> set (map (foldl Seq Eps) (rs # rss)). anchor_free r"
    by (rule units_anchor_free)
  then have 1: "anchor_free (foldl Alt (foldl Seq Eps rs) (map (foldl Seq Eps) rss))"
    by (intro anchor_free_foldl_Alt) simp_all
  have 2: "\<And>rest a cur stack.
          rx_parse ((ustr ''(?:'' @ join_bar (p # ps) @ ustr '')'') @ rest) (a, cur) stack
          = rx_parse rest
              (a, Seq cur (foldl Alt (foldl Seq Eps rs) (map (foldl Seq Eps) rss))) stack"
  proof -
    fix rest a cur stack
    have "rx_parse ((ustr ''(?:'' @ join_bar (p # ps) @ ustr '')'') @ rest) (a, cur) stack
          = rx_parse (join_bar (p # ps) @ 0x29 # rest) (None, Eps) ((a, cur) # stack)"
      by (simp add: ustr_def)
    also have "\<dots> = rx_parse rest
              (a, Seq cur (foldl Alt (close_frame (None, foldl Seq Eps rs))
                             (map (foldl Seq Eps) rss))) stack"
      by (simp only: rx_parse_group_alternatives [OF assms] fst_conv snd_conv)
    finally show "rx_parse ((ustr ''(?:'' @ join_bar (p # ps) @ ustr '')'') @ rest) (a, cur) stack
          = rx_parse rest
              (a, Seq cur (foldl Alt (foldl Seq Eps rs) (map (foldl Seq Eps) rss))) stack"
      by (simp add: close_frame_def)
  qed
  from 1 2 show ?thesis
    unfolding units_rx_def by simp
qed

lemma list_all2_ex: "\<forall>x \<in> set xs. \<exists>y. R x y \<Longrightarrow> \<exists>ys. list_all2 R xs ys"
proof (induction xs)
  case Nil
  show ?case by simp
next
  case (Cons x xs)
  then obtain y ys where "R x y" "list_all2 R xs ys"
    by auto
  then have "list_all2 R (x # xs) (y # ys)" by simp
  then show ?case ..
qed

lemma lang_group:
  "lang canon (foldl Seq Eps [foldl Alt A Bs]) = lang canon A \<union> (\<Union>B \<in> set Bs. lang canon B)"
  by (auto simp: lang_foldl_Alt)

text \<open>An alternation of patterns read as units is read as units.\<close>

lemma units_arrayToPattern:
  assumes u: "\<forall>p \<in> set ps. \<exists>rs. units_rx p rs"
  shows "(\<exists>rs. units_rx (spec_arrayToPattern ps) rs)
         \<and> (\<forall>p x. p \<in> set ps \<longrightarrow> p \<noteq> [] \<longrightarrow> fragment_matches frag_platform p x
               \<longrightarrow> fragment_matches frag_platform (spec_arrayToPattern ps) x)"
proof -
  let ?ps = "filter (\<lambda>c. c \<noteq> []) ps"
  from u have u': "\<forall>p \<in> set ?ps. \<exists>rs. units_rx p rs"
    by simp
  show ?thesis
  proof (cases ?ps)
    case Nil
    then have "spec_arrayToPattern ps = []"
      by (simp add: spec_arrayToPattern_def)
    moreover from Nil have "\<forall>p \<in> set ps. p = []"
      by (simp add: filter_empty_conv)
    ultimately show ?thesis
      using units_empty by auto
  next
    case (Cons c cs)
    show ?thesis
    proof (cases cs)
      case Nil
      with Cons have e: "spec_arrayToPattern ps = c"
        by (simp add: spec_arrayToPattern_def)
      from Cons Nil have "set ?ps = {c}" by simp
      then have "\<forall>p \<in> set ps. p \<noteq> [] \<longrightarrow> p = c" by auto
      moreover from Cons Nil u' have "\<exists>rs. units_rx c rs" by simp
      ultimately show ?thesis
        unfolding e by blast
    next
      case c2: (Cons c' cs')
      with Cons have e: "spec_arrayToPattern ps = ustr ''(?:'' @ join_bar ?ps @ ustr '')''"
        by (simp add: spec_arrayToPattern_def)
      from list_all2_ex [OF u'] obtain rss where l: "list_all2 units_rx ?ps rss"
        by blast
      with Cons obtain rs rss' where r: "rss = rs # rss'"
        by (cases rss) auto
      let ?A = "foldl Alt (foldl Seq Eps rs) (map (foldl Seq Eps) rss')"
      from l have g: "units_rx (ustr ''(?:'' @ join_bar ?ps @ ustr '')'') [?A]"
        unfolding Cons r by (rule units_group)
      have m: "\<And>p x. p \<in> set ps \<Longrightarrow> p \<noteq> [] \<Longrightarrow> fragment_matches frag_platform p x
                 \<Longrightarrow> fragment_matches frag_platform (spec_arrayToPattern ps) x"
      proof -
        fix p x assume "p \<in> set ps" "p \<noteq> []" and f: "fragment_matches frag_platform p x"
        then have "p \<in> set ?ps" by simp
        with in_set_conv_nth [of p ?ps] obtain i where i: "i < length ?ps" "?ps ! i = p"
          by blast
        with l have ui: "units_rx p (rss ! i)" and il: "i < length rss"
          by (auto simp: list_all2_conv_all_nth)
        from f units_fragment_matches [OF ui] have "x \<in> lang ascii_fold (foldl Seq Eps (rss ! i))"
          by simp
        moreover from il have "foldl Seq Eps (rss ! i) \<in> set (map (foldl Seq Eps) rss)"
          by (auto simp del: foldl.simps)
        ultimately have "x \<in> (\<Union>B \<in> set (map (foldl Seq Eps) rss). lang ascii_fold B)"
          by blast
        then have "x \<in> lang ascii_fold (foldl Seq Eps [?A])"
          unfolding lang_group r by simp
        then show "fragment_matches frag_platform (spec_arrayToPattern ps) x"
          unfolding e units_fragment_matches [OF g] .
      qed
      from g m show ?thesis
        unfolding e by blast
    qed
  qed
qed

lemma units_sequencePattern:
  assumes "\<forall>p. Some p \<in> set qs \<longrightarrow> (\<exists>rs. units_rx p rs)"
  shows "\<exists>rs. units_rx (spec_sequencePattern qs) rs"
proof -
  let ?ps = "map (\<lambda>x. case x of None \<Rightarrow> [] | Some s \<Rightarrow> s) qs"
  have "\<forall>p \<in> set ?ps. \<exists>rs. units_rx p rs"
  proof
    fix p assume "p \<in> set ?ps"
    then obtain q where q: "q \<in> set qs" "p = (case q of None \<Rightarrow> [] | Some s \<Rightarrow> s)"
      by auto
    with assms units_empty show "\<exists>rs. units_rx p rs"
      by (cases q) auto
  qed
  from list_all2_ex [OF this] obtain rss where "list_all2 units_rx ?ps rss"
    by blast
  from units_concat [OF this] show ?thesis
    unfolding spec_sequencePattern_def by blast
qed

lemma built_units: "p \<in> built spec_helpers \<Longrightarrow> \<exists>rs. units_rx p rs"
proof (induction rule: built.induct)
  case empty
  from units_empty show ?case ..
next
  case (literal c)
  from units_literal [OF this] show ?case ..
next
  case (variants S)
  from escaped_variants_spec [OF variants(1)] obtain ys where "S = map spec_escape_regex ys"
    by blast
  then have "\<forall>p \<in> set S. \<exists>rs. units_rx p rs"
    using units_escaped by auto
  from units_arrayToPattern [OF this] show ?case
    by (simp add: spec_helpers_def)
next
  case (sequence qs)
  then have "\<forall>p. Some p \<in> set qs \<longrightarrow> (\<exists>rs. units_rx p rs)"
    by blast
  from units_sequencePattern [OF this] show ?case
    by (simp add: spec_helpers_def)
next
  case (alternation ps)
  then have "\<forall>p \<in> set ps. \<exists>rs. units_rx p rs"
    by blast
  from units_arrayToPattern [OF this] show ?case
    by (simp add: spec_helpers_def)
next
  case (concatenation p q)
  then obtain rs rs' where "units_rx p rs" "units_rx q rs'"
    by blast
  from units_append [OF this] show ?case ..
qed

lemma units_matches_append:
  assumes p: "units_rx p rs" and q: "units_rx q rs'"
    and x: "fragment_matches frag_platform p x" and y: "fragment_matches frag_platform q y"
  shows "fragment_matches frag_platform (p @ q) (x @ y)"
proof -
  from x y have "x \<in> lang ascii_fold (foldl Seq Eps rs)" "y \<in> lang ascii_fold (foldl Seq Eps rs')"
    by (simp_all add: units_fragment_matches [OF p] units_fragment_matches [OF q])
  then have "x @ y \<in> lang ascii_fold (foldl Seq Eps (rs @ rs'))"
    unfolding lang_foldl_Seq_append by blast
  then show ?thesis
    by (simp only: units_fragment_matches [OF units_append [OF p q]])
qed

lemma built_matches_concat:
  "list_all2 (\<lambda>p x. p \<in> built spec_helpers \<and> fragment_matches frag_platform p x) ps xs
     \<Longrightarrow> fragment_matches frag_platform (concat ps) (concat xs)"
proof (induction ps xs rule: list_all2_induct)
  case Nil
  show ?case by (simp add: fragment_matches_empty)
next
  case (Cons p ps x xs)
  from Cons.hyps(1) built_units obtain rs where p: "units_rx p rs"
    by blast
  have "\<forall>q \<in> set ps. \<exists>rs. units_rx q rs"
    using Cons.hyps(2) built_units by (auto simp: list_all2_conv_all_nth in_set_conv_nth)
  from list_all2_ex [OF this] obtain rss where "list_all2 units_rx ps rss"
    by blast
  from units_concat [OF this] have q: "units_rx (concat ps) (concat rss)" .
  from units_matches_append [OF p q] Cons.hyps(1) Cons.IH show ?case
    by simp
qed

lemma pattern_contract_frag: "pattern_contract frag_platform spec_helpers"
  unfolding pattern_contract_def
proof (intro conjI allI impI)
  fix ps :: "ustring list" and xs :: "ustring list"
  assume "list_all2 (\<lambda>p x. p \<in> built spec_helpers \<and> fragment_matches frag_platform p x) ps xs"
  from built_matches_concat [OF this]
  show "fragment_matches frag_platform (sequencePattern spec_helpers (map Some ps)) (concat xs)"
    by (simp add: spec_helpers_def spec_sequencePattern_Some)
next
  fix ps :: "ustring list" and p x :: ustring
  assume b: "set ps \<subseteq> built spec_helpers" and p: "p \<in> set ps" "p \<noteq> []"
    and f: "fragment_matches frag_platform p x"
  from b built_units have "\<forall>p \<in> set ps. \<exists>rs. units_rx p rs"
    by blast
  from units_arrayToPattern [OF this] p f
  show "fragment_matches frag_platform (arrayToPattern spec_helpers ps) x"
    by (simp add: spec_helpers_def)
next
  fix p q x y :: ustring
  assume "p \<in> built spec_helpers" "q \<in> built spec_helpers"
    and x: "fragment_matches frag_platform p x" and y: "fragment_matches frag_platform q y"
  with built_units obtain rs rs' where "units_rx p rs" "units_rx q rs'"
    by blast
  from units_matches_append [OF this x y]
  show "fragment_matches frag_platform (p @ q) (x @ y)" .
next
  fix p x :: ustring
  assume "p \<in> built spec_helpers" and f: "fragment_matches frag_platform p x"
  with built_units obtain rs where u: "units_rx p rs"
    by blast
  from f have "x \<in> lang ascii_fold (foldl Seq Eps rs)"
    by (simp add: units_fragment_matches [OF u])
  with u show "pattern_matches frag_platform p x"
    by (rule units_pattern_matches)
next
  fix c :: "16 word"
  assume "c \<notin> set syntax_chars"
  from units_fragment_matches [OF units_literal [OF this]]
  show "fragment_matches frag_platform [c] [c]"
    by simp
next
  fix x :: ustring
  show "fragment_matches frag_platform [] x = (x = [])"
    by (rule fragment_matches_empty)
next
  fix S :: "ustring list"
  assume e: "escaped_variants spec_helpers S" and ne: "S \<noteq> []"
  from escaped_variants_spec [OF e] obtain ys where ys: "S = map spec_escape_regex ys" "[] \<notin> set ys"
    by blast
  with ne obtain y ys' where y: "ys = y # ys'" "y \<noteq> []"
    by (cases ys) auto
  with ys have "spec_arrayToPattern (map spec_escape_regex ys) \<noteq> []"
    by (subst spec_arrayToPattern_escaped)
       (auto simp: spec_escape_regex_eq_Nil ustr_def split: list.splits)
  with ys show "setToPattern spec_helpers S \<noteq> []"
    by (simp add: spec_helpers_def)
qed

lemma latin_generateMap:
  "generateMap frag_platform spec_helpers latin_code_points = Inr latin_state"
proof -
  have "\<not> isl (generateMap frag_platform spec_helpers latin_code_points)"
    by code_simp
  then show ?thesis
    by (cases "generateMap frag_platform spec_helpers latin_code_points")
       (simp_all add: latin_state_def)
qed

text \<open>
  With the table of U+00E9 and U+FB00 and the input U+00E9 U+FB00: the folded input is
  \<open>eff\<close>, which contains the key \<open>ff\<close>; its segmentation is \<open>e\<close>, \<open>ff\<close>; the pattern is the
  fragment of \<open>e\<close> followed by the fragment of \<open>ff\<close>, and it matches \<open>eff\<close> and the input
  itself.
\<close>

theorem getPattern_matches_folded_witness:
  "regex_contract frag_platform spec_helpers \<and> matcher_contract frag_platform spec_helpers
   \<and> pattern_contract frag_platform spec_helpers \<and> substrings_contract spec_helpers
   \<and> generateMap frag_platform spec_helpers latin_code_points = Inr latin_state
   \<and> multi_char_keys latin_state = {ustr ''ff''}
   \<and> asciifold frag_platform [0xE9, 0xFB00] = ustr ''eff''
   \<and> segmentation latin_state (ustr ''eff'') = [ustr ''e'', ustr ''ff'']
   \<and> getPattern frag_platform spec_helpers latin_code_points None [0xE9, 0xFB00]
       = Inr (Some (ustr ''(?:e|'' @ [0xE9] @ ustr '')(?:ff|'' @ [0xFB00] @ ustr '')''),
              latin_state)
   \<and> pattern_matches frag_platform
        (ustr ''(?:e|'' @ [0xE9] @ ustr '')(?:ff|'' @ [0xFB00] @ ustr '')'') (ustr ''eff'')
   \<and> pattern_matches frag_platform
        (ustr ''(?:e|'' @ [0xE9] @ ustr '')(?:ff|'' @ [0xFB00] @ ustr '')'') [0xE9, 0xFB00]"
proof -
  let ?input = "[0xE9, 0xFB00] :: ustring"
  let ?pat = "ustr ''(?:e|'' @ [0xE9] @ ustr '')(?:ff|'' @ [0xFB00] @ ustr '')''"
  have s: "generateSets frag_platform spec_helpers latin_code_points
             = Inr [(ustr ''e'', [ustr ''e'', [0xE9]]), (ustr ''ff'', [ustr ''ff'', [0xFB00]])]"
    by code_simp
  have k: "multi_char_keys latin_state = {ustr ''ff''}"
    unfolding multi_char_keys_def dom_generateMap [OF latin_generateMap s]
    by (auto simp: ustr_def)
  then have ne: "multi_char_keys latin_state \<noteq> {}"
    by simp
  have f: "asciifold frag_platform ?input = ustr ''eff''"
    by code_simp
  have seg: "segmentation latin_state (ustr ''eff'') = [ustr ''e'', ustr ''ff'']"
    by code_simp
  have syn: "\<forall>c \<in> set (asciifold frag_platform ?input).
               c \<in> set syntax_chars \<longrightarrow> unicode_map latin_state [c] \<noteq> None"
    unfolding f by (simp add: ustr_def syntax_chars_iff)
  have keys: "unicode_map latin_state (ustr ''e'') \<noteq> None"
    "unicode_map latin_state (ustr ''ff'') \<noteq> None"
    by code_simp+
  then have left: "(\<exists>k \<in> multi_char_keys latin_state. sublist k (asciifold frag_platform ?input))
          \<longrightarrow> (\<forall>g \<in> set (segmentation latin_state (asciifold frag_platform ?input)).
                 unicode_map latin_state g \<noteq> None)"
    unfolding f seg by simp
  have v: "list_all2 (variant_of frag_platform latin_code_points latin_state)
             [ustr ''e'', ustr ''ff''] [[0xE9], [0xFB00]]"
    by code_simp
  have g: "(case getPattern frag_platform spec_helpers latin_code_points None ?input of
              Inl e \<Rightarrow> None | Inr (r, st) \<Rightarrow> r) = Some ?pat"
    by code_simp
  from getPattern_matches_folded
         [OF regex_contract_frag matcher_contract_frag pattern_contract_frag
             substrings_contract_spec latin_generateMap ne syn left]
  obtain p where p: "getPattern frag_platform spec_helpers latin_code_points None ?input
                       = Inr (Some p, latin_state)"
    and pv: "\<forall>vs. list_all2 (variant_of frag_platform latin_code_points latin_state)
                     (segmentation latin_state (asciifold frag_platform ?input)) vs
               \<longrightarrow> fragment_matches frag_platform p (concat vs)
                   \<and> pattern_matches frag_platform p (concat vs)"
    and pm: "pattern_matches frag_platform p (asciifold frag_platform ?input)"
    by blast
  from p g have pe: "p = ?pat"
    by simp
  from pv v have "pattern_matches frag_platform p (concat [[0xE9], [0xFB00]])"
    unfolding f seg by blast
  then have m2: "pattern_matches frag_platform ?pat ?input"
    unfolding pe by simp
  from pm have m1: "pattern_matches frag_platform ?pat (ustr ''eff'')"
    unfolding pe f .
  from p have gp: "getPattern frag_platform spec_helpers latin_code_points None ?input
                     = Inr (Some ?pat, latin_state)"
    unfolding pe .
  from regex_contract_frag matcher_contract_frag pattern_contract_frag substrings_contract_spec
    latin_generateMap k f seg gp m1 m2
  show ?thesis by (intro conjI)
qed

end
